theory Spec2Isabelle
  imports Main "HOL-Library.Word"
begin

unbundle bit_operations_syntax

section \<open>Bytes, constants and errors\<close>

text \<open>
  A shallow embedding of the S2A half connection (\<^verbatim>\<open>halfconn.go\<close>) and of the buffer
  utility \<^verbatim>\<open>SliceForAppend\<close> (\<^verbatim>\<open>common.go\<close>). A Go \<^verbatim>\<open>[]byte\<close> whose aliasing does
  not matter is a list of 8-bit words; \<^verbatim>\<open>uint64\<close> is a 64-bit word; Go's \<^verbatim>\<open>int\<close> is
  \<^typ>\<open>int\<close>, with the 64-bit wrap-around written out (\<open>int64\<close>) where a sum can
  overflow.
\<close>

type_synonym byte = "8 word"
type_synonym bytes = "byte list"

text \<open>\<^verbatim>\<open>const uint64Size = 8\<close> and \<^verbatim>\<open>NonceSize = 12\<close>.\<close>

definition uint64Size :: nat where
  "uint64Size = 8"

definition nonceSize :: nat where
  "nonceSize = 12"

text \<open>\<^verbatim>\<open>[]byte(s)\<close> for a string constant.\<close>

definition bytes_of :: "string \<Rightarrow> bytes" where
  "bytes_of s = map (\<lambda>c. of_nat (of_char c)) s"

definition tls13Key :: bytes where
  "tls13Key = bytes_of ''tls13 key''"

definition tls13Nonce :: bytes where
  "tls13Nonce = bytes_of ''tls13 iv''"

definition tls13Update :: bytes where
  "tls13Update = bytes_of ''tls13 traffic upd''"

text \<open>
  Go's \<^verbatim>\<open>error\<close> values. The source builds its errors with \<^verbatim>\<open>fmt.Errorf\<close>; the
  model keeps the site and the wrapped error and drops the formatted text.
  \<^item> \<open>ConfigurationError\<close>: the error \<^verbatim>\<open>NewHalfConn\<close> creates when the traffic secret
    has the wrong size;
  \<^item> \<open>SequenceOverflowError\<close>: what the counter's \<^verbatim>\<open>value()\<close> returns once overflowed;
  \<^item> \<open>BuilderError\<close>: the error of \<^verbatim>\<open>cryptobyte.Builder\<close> (a length that does not fit
    its prefix);
  \<^item> \<open>DerivationError\<close>, \<open>AuthenticationFailure\<close>: errors an HKDF expander or an AEAD
    crypter may return;
  \<^item> \<open>Errorf site e\<close>: \<^verbatim>\<open>fmt.Errorf("<site> failed with error: %v", e)\<close>;
  \<^item> \<open>Panic\<close>: a run-time panic (index or slice bounds out of range, a method call on
    a nil interface). A panic is not a returned error: the call does not return, and
    the state paired with it is the state when it was raised.
\<close>

datatype error =
    ConfigurationError
  | SequenceOverflowError
  | BuilderError
  | DerivationError
  | AuthenticationFailure
  | Errorf string error
  | Panic string

section \<open>The sequence counter\<close>

text \<open>
  Modelled from the spec: the type \<^verbatim>\<open>counter\<close> with \<^verbatim>\<open>newCounter\<close>, \<^verbatim>\<open>value\<close>,
  \<^verbatim>\<open>increment\<close> and \<^verbatim>\<open>reset\<close> is used by \<^verbatim>\<open>halfconn.go\<close> but its file is not among
  the sources. The spec (4.3): a 64-bit counter starting at 0; \<^verbatim>\<open>value()\<close> returns the
  current value and fails with Overflow once the counter has been incremented \<open>2^64\<close>
  times; \<^verbatim>\<open>increment()\<close> advances by one and is a no-op on an overflowed counter;
  \<^verbatim>\<open>reset()\<close> sets it to 0. (\<^verbatim>\<open>value\<close> is written \<open>counter_value\<close>.)
\<close>

record counter =
  val :: "64 word"
  hasOverflowed :: bool

definition newCounter :: counter where
  "newCounter = \<lparr>val = 0, hasOverflowed = False\<rparr>"

definition counter_value :: "counter \<Rightarrow> error + 64 word" where
  "counter_value c = (if hasOverflowed c then Inl SequenceOverflowError else Inr (val c))"

definition increment :: "counter \<Rightarrow> counter" where
  "increment c =
     (if hasOverflowed c then c
      else \<lparr>val = val c + 1, hasOverflowed = (val c + 1 = 0)\<rparr>)"

definition reset :: "counter \<Rightarrow> counter" where
  "reset c = \<lparr>val = 0, hasOverflowed = False\<rparr>"

text \<open>The number of sequence numbers a counter has handed out since its last reset.\<close>

definition consumed :: "counter \<Rightarrow> nat" where
  "consumed c = (if hasOverflowed c then 2 ^ 64 else unat (val c))"

section \<open>The interfaces the half connection is built on\<close>

text \<open>
  \<^verbatim>\<open>s2aAeadCrypter\<close>, \<^verbatim>\<open>ciphersuite\<close> and \<^verbatim>\<open>hkdfExpander\<close> are Go interfaces whose
  implementations are not among the sources. An interface value is a record of its
  methods; every theorem below holds for every implementation.

  An AEAD crypter is an object with internal state \<open>'s\<close> (its key material):
  \<^verbatim>\<open>encrypt(dst, plaintext, nonce, aad)\<close> and \<^verbatim>\<open>decrypt(dst, ciphertext, nonce, aad)\<close>
  read it, \<^verbatim>\<open>updateKey(key)\<close> may replace it and may fail.
\<close>

record 's s2aAeadCrypter =
  crypterState :: 's
  encrypt :: "'s \<Rightarrow> bytes \<Rightarrow> bytes \<Rightarrow> bytes \<Rightarrow> bytes \<Rightarrow> error + bytes"
  decrypt :: "'s \<Rightarrow> bytes \<Rightarrow> bytes \<Rightarrow> bytes \<Rightarrow> bytes \<Rightarrow> error + bytes"
  updateKey :: "'s \<Rightarrow> bytes \<Rightarrow> error option \<times> 's"

text \<open>
  \<^verbatim>\<open>expand(h, secret, info, length)\<close> of an \<^verbatim>\<open>hkdfExpander\<close>; \<open>'h\<close> is the type of
  hash constructors (\<^verbatim>\<open>func() hash.Hash\<close>).
\<close>

type_synonym 'h hkdfExpander = "'h \<Rightarrow> bytes \<Rightarrow> bytes \<Rightarrow> int \<Rightarrow> error + bytes"

text \<open>
  The methods of a \<^verbatim>\<open>ciphersuite\<close>: \<^verbatim>\<open>keySize()\<close>, \<^verbatim>\<open>nonceSize()\<close>,
  \<^verbatim>\<open>trafficSecretSize()\<close>, \<^verbatim>\<open>hashFunction()\<close> and \<^verbatim>\<open>aeadCrypter(key)\<close> (prefixed
  \<open>cs_\<close>, since \<open>nonceSize\<close> and \<open>aeadCrypter\<close> name other things too).
\<close>

record ('h, 's) ciphersuite =
  cs_keySize :: int
  cs_nonceSize :: int
  cs_trafficSecretSize :: int
  cs_hashFunction :: 'h
  cs_aeadCrypter :: "bytes \<Rightarrow> error + 's s2aAeadCrypter"

text \<open>The values of the protocol's \<^verbatim>\<open>Ciphersuite\<close> enumeration.\<close>

datatype Ciphersuite = AES_128_GCM_SHA256 | AES_256_GCM_SHA384 | CHACHA20_POLY1305_SHA256

section \<open>The half connection\<close>

text \<open>
  \<^verbatim>\<open>type S2AHalfConnection struct\<close>. The mutex is left out: the model is sequential.
  \<open>aeadCrypter\<close> is \<open>None\<close> for the nil interface the struct holds until
  \<^verbatim>\<open>NewHalfConn\<close> has built the crypter.
\<close>

record ('h, 's) S2AHalfConnection =
  cs :: "('h, 's) ciphersuite"
  h :: 'h
  aeadCrypter :: "'s s2aAeadCrypter option"
  expander :: "'h hkdfExpander"
  seqCounter :: counter
  trafficSecret :: bytes
  nonce :: bytes
  key :: bytes

text \<open>
  The calls the half connection makes on its collaborators, in the order made: every
  operation returns the list of the calls it made, so that "the crypter is not
  invoked" and "before any crypter is built" are statements about that list.
\<close>

datatype event =
    HkdfExpand bytes bytes int
  | NewAeadCrypter bytes
  | AeadEncrypt bytes bytes bytes bytes
  | AeadDecrypt bytes bytes bytes bytes
  | AeadUpdateKey bytes

subsection \<open>deriveSecret\<close>

text \<open>
  The part of \<^verbatim>\<open>cryptobyte.Builder\<close> that \<^verbatim>\<open>deriveSecret\<close> uses. A builder is its
  bytes so far, or the error it has run into (every later operation is then a no-op,
  and \<^verbatim>\<open>Bytes()\<close> returns the error). \<^verbatim>\<open>AddUint16\<close> appends two bytes, high byte
  first; \<^verbatim>\<open>AddUint8LengthPrefixed\<close> appends the length of the child's bytes as one
  byte and then the bytes, and fails when the length is above 255.
\<close>

type_synonym Builder = "error + bytes"

definition AddUint16 :: "16 word \<Rightarrow> Builder \<Rightarrow> Builder" where
  "AddUint16 v b =
     (case b of Inl e \<Rightarrow> Inl e
      | Inr bs \<Rightarrow> Inr (bs @ [ucast (drop_bit 8 v), ucast v]))"

definition AddUint8LengthPrefixed :: "bytes \<Rightarrow> Builder \<Rightarrow> Builder" where
  "AddUint8LengthPrefixed child b =
     (case b of Inl e \<Rightarrow> Inl e
      | Inr bs \<Rightarrow>
          if length child > 255 then Inl BuilderError
          else Inr (bs @ [of_nat (length child)] @ child))"

text \<open>
  \<^verbatim>\<open>hkdfLabel\<close> as \<^verbatim>\<open>deriveSecret\<close> builds it: \<^verbatim>\<open>AddUint16(uint16(length))\<close> (the
  conversion keeps the low 16 bits), the label, and the empty context.
\<close>

definition hkdfLabel :: "bytes \<Rightarrow> int \<Rightarrow> Builder" where
  "hkdfLabel label length' =
     AddUint8LengthPrefixed []
       (AddUint8LengthPrefixed label
         (AddUint16 (word_of_int length') (Inr [])))"

definition deriveSecret ::
  "('h, 's) S2AHalfConnection \<Rightarrow> bytes \<Rightarrow> bytes \<Rightarrow> int \<Rightarrow> (error + bytes) \<times> event list" where
  "deriveSecret hc secret label length' =
     (case hkdfLabel label length' of
        Inl err \<Rightarrow> (Inl (Errorf ''deriveSecret'' err), [])
      | Inr hkdfLabelBytes \<Rightarrow>
          (expander hc (h hc) secret hkdfLabelBytes length',
           [HkdfExpand secret hkdfLabelBytes length']))"

subsection \<open>updateWithNewTrafficSecret\<close>

text \<open>
  \<^verbatim>\<open>hc.key, err = hc.deriveSecret(...)\<close> assigns the field also when the call fails;
  a failed call returns a nil slice with its error.
\<close>

definition updateWithNewTrafficSecret ::
  "('h, 's) S2AHalfConnection \<Rightarrow> bytes \<Rightarrow>
     error option \<times> ('h, 's) S2AHalfConnection \<times> event list" where
  "updateWithNewTrafficSecret hc newTrafficSecret =
     (case deriveSecret hc newTrafficSecret tls13Key (cs_keySize (cs hc)) of
        (Inl err, ev1) \<Rightarrow> (Some (Errorf ''hc.deriveSecret'' err), hc\<lparr>key := []\<rparr>, ev1)
      | (Inr k, ev1) \<Rightarrow>
          (let hc1 = hc\<lparr>key := k\<rparr> in
           case deriveSecret hc1 newTrafficSecret tls13Nonce (cs_nonceSize (cs hc1)) of
             (Inl err, ev2) \<Rightarrow>
               (Some (Errorf ''hc.deriveSecret'' err), hc1\<lparr>nonce := []\<rparr>, ev1 @ ev2)
           | (Inr n, ev2) \<Rightarrow> (None, hc1\<lparr>nonce := n\<rparr>, ev1 @ ev2)))"

subsection \<open>NewHalfConn\<close>

text \<open>
  \<^verbatim>\<open>newCiphersuite\<close> and the \<^verbatim>\<open>defaultHKDFExpander\<close> are not among the sources: they
  are the first two arguments.
\<close>

definition NewHalfConn ::
  "(Ciphersuite \<Rightarrow> ('h, 's) ciphersuite) \<Rightarrow> 'h hkdfExpander \<Rightarrow> Ciphersuite \<Rightarrow> bytes \<Rightarrow>
     (error + ('h, 's) S2AHalfConnection) \<times> event list" where
  "NewHalfConn newCiphersuite defaultHKDFExpander ciphersuite' trafficSecret' =
     (let cs' = newCiphersuite ciphersuite' in
      if cs_trafficSecretSize cs' \<noteq> int (length trafficSecret') then
        (Inl ConfigurationError, [])
      else
        (let hc = \<lparr>cs = cs', h = cs_hashFunction cs', aeadCrypter = None,
                   expander = defaultHKDFExpander, seqCounter = newCounter,
                   trafficSecret = trafficSecret', nonce = [], key = []\<rparr> in
         case updateWithNewTrafficSecret hc (trafficSecret hc) of
           (Some err, hc1, ev) \<Rightarrow> (Inl (Errorf ''hc.updateWithNewTrafficSecret'' err), ev)
         | (None, hc1, ev) \<Rightarrow>
             (case cs_aeadCrypter cs' (key hc1) of
                Inl err \<Rightarrow> (Inl (Errorf ''cs.aeadCrypter'' err), ev @ [NewAeadCrypter (key hc1)])
              | Inr c \<Rightarrow>
                  (Inr (hc1\<lparr>aeadCrypter := Some c\<rparr>), ev @ [NewAeadCrypter (key hc1)]))))"

subsection \<open>getAndIncrementSequence and maskedNonce\<close>

definition getAndIncrementSequence ::
  "('h, 's) S2AHalfConnection \<Rightarrow> (error + 64 word) \<times> ('h, 's) S2AHalfConnection" where
  "getAndIncrementSequence hc =
     (case counter_value (seqCounter hc) of
        Inl err \<Rightarrow> (Inl err, hc)
      | Inr sequence \<Rightarrow> (Inr sequence, hc\<lparr>seqCounter := increment (seqCounter hc)\<rparr>))"

text \<open>
  The loop of \<^verbatim>\<open>maskedNonce\<close>, from index \<open>i\<close> on, over the copy \<open>nonce'\<close>:
  \<^verbatim>\<open>nonce[nonceSize-uint64Size+i] ^= byte(sequence >> uint64(56-uint64Size*i))\<close>.
  An index beyond the copy is a run-time panic.
\<close>

function maskedNonce_loop :: "nat \<Rightarrow> 64 word \<Rightarrow> bytes \<Rightarrow> error + bytes" where
  "maskedNonce_loop i sequence nonce' =
     (if i < uint64Size then
        (let idx = nonceSize - uint64Size + i in
         if idx < length nonce' then
           maskedNonce_loop (Suc i) sequence
             (nonce'[idx := (nonce' ! idx) XOR ucast (drop_bit (56 - uint64Size * i) sequence)])
         else Inl (Panic ''index out of range''))
      else Inr nonce')"
  by pat_completeness auto
termination
  by (relation "measure (\<lambda>(i, sequence, nonce'). uint64Size - i)") auto

declare maskedNonce_loop.simps [simp del]

text \<open>
  \<^verbatim>\<open>make([]byte, len(hc.nonce))\<close> followed by \<^verbatim>\<open>copy(nonce, hc.nonce)\<close> gives a new
  slice with the bytes of \<open>nonce hc\<close>; the loop then works on that copy. (The store-level
  model of the same function, with the allocation explicit, is \<open>maskedNonce_mem\<close>
  below.)
\<close>

definition maskedNonce :: "('h, 's) S2AHalfConnection \<Rightarrow> 64 word \<Rightarrow> error + bytes" where
  "maskedNonce hc sequence = maskedNonce_loop 0 sequence (nonce hc)"

subsection \<open>Encrypt, Decrypt and UpdateKey\<close>

definition Encrypt ::
  "('h, 's) S2AHalfConnection \<Rightarrow> bytes \<Rightarrow> bytes \<Rightarrow> bytes \<Rightarrow>
     (error + bytes) \<times> ('h, 's) S2AHalfConnection \<times> event list" where
  "Encrypt hc dst plaintext aad =
     (case getAndIncrementSequence hc of
        (Inl err, hc1) \<Rightarrow> (Inl err, hc1, [])
      | (Inr sequence, hc1) \<Rightarrow>
          (case maskedNonce hc1 sequence of
             Inl p \<Rightarrow> (Inl p, hc1, [])
           | Inr n \<Rightarrow>
               (case aeadCrypter hc1 of
                  None \<Rightarrow> (Inl (Panic ''nil pointer dereference''), hc1, [])
                | Some c \<Rightarrow>
                    (encrypt c (crypterState c) dst plaintext n aad, hc1,
                     [AeadEncrypt dst plaintext n aad]))))"

definition Decrypt ::
  "('h, 's) S2AHalfConnection \<Rightarrow> bytes \<Rightarrow> bytes \<Rightarrow> bytes \<Rightarrow>
     (error + bytes) \<times> ('h, 's) S2AHalfConnection \<times> event list" where
  "Decrypt hc dst ciphertext aad =
     (case getAndIncrementSequence hc of
        (Inl err, hc1) \<Rightarrow> (Inl err, hc1, [])
      | (Inr sequence, hc1) \<Rightarrow>
          (case maskedNonce hc1 sequence of
             Inl p \<Rightarrow> (Inl p, hc1, [])
           | Inr n \<Rightarrow>
               (case aeadCrypter hc1 of
                  None \<Rightarrow> (Inl (Panic ''nil pointer dereference''), hc1, [])
                | Some c \<Rightarrow>
                    (decrypt c (crypterState c) dst ciphertext n aad, hc1,
                     [AeadDecrypt dst ciphertext n aad]))))"

definition UpdateKey ::
  "('h, 's) S2AHalfConnection \<Rightarrow> error option \<times> ('h, 's) S2AHalfConnection \<times> event list" where
  "UpdateKey hc =
     (case deriveSecret hc (trafficSecret hc) tls13Update (cs_trafficSecretSize (cs hc)) of
        (Inl err, ev1) \<Rightarrow> (Some (Errorf ''hc.deriveSecret'' err), hc\<lparr>trafficSecret := []\<rparr>, ev1)
      | (Inr s, ev1) \<Rightarrow>
          (let hc1 = hc\<lparr>trafficSecret := s\<rparr> in
           case updateWithNewTrafficSecret hc1 (trafficSecret hc1) of
             (Some err, hc2, ev2) \<Rightarrow>
               (Some (Errorf ''hc.updateWithNewTrafficSecret'' err), hc2, ev1 @ ev2)
           | (None, hc2, ev2) \<Rightarrow>
               (case aeadCrypter hc2 of
                  None \<Rightarrow> (Some (Panic ''nil pointer dereference''), hc2, ev1 @ ev2)
                | Some c \<Rightarrow>
                    (case updateKey c (crypterState c) (key hc2) of
                       (Some err, st) \<Rightarrow>
                         (Some (Errorf ''hc.aeadCrypter.updateKey'' err),
                          hc2\<lparr>aeadCrypter := Some (c\<lparr>crypterState := st\<rparr>)\<rparr>,
                          ev1 @ ev2 @ [AeadUpdateKey (key hc2)])
                     | (None, st) \<Rightarrow>
                         (None,
                          hc2\<lparr>aeadCrypter := Some (c\<lparr>crypterState := st\<rparr>),
                              seqCounter := reset (seqCounter hc2)\<rparr>,
                          ev1 @ ev2 @ [AeadUpdateKey (key hc2)])))))"

section \<open>Slices in memory\<close>

text \<open>
  Where aliasing matters (\<^verbatim>\<open>SliceForAppend\<close>, and the copy \<^verbatim>\<open>maskedNonce\<close> makes), a
  \<^verbatim>\<open>[]byte\<close> is a slice header over a store of backing arrays. The store is the list
  of the arrays allocated so far, an array's address its index, and an allocation
  appends a new array. A slice has the address of its array (\<open>None\<close> for the nil
  slice), the offset of its first element in it, and Go's \<^verbatim>\<open>len\<close> and \<^verbatim>\<open>cap\<close>.
  The store itself has no size limit: \<open>make\<close> is the allocation proper, and
  \<open>makeslice\<close> puts the run-time's check of the requested length in front of it.
\<close>

type_synonym heap = "bytes list"

record slice =
  base :: "nat option"
  off :: nat
  len :: nat
  cap :: nat

text \<open>The bytes a slice shows, and the invariant the Go runtime keeps for a slice.\<close>

definition contents :: "heap \<Rightarrow> slice \<Rightarrow> bytes" where
  "contents H s =
     (case base s of None \<Rightarrow> [] | Some a \<Rightarrow> take (len s) (drop (off s) (H ! a)))"

definition wf_slice :: "heap \<Rightarrow> slice \<Rightarrow> bool" where
  "wf_slice H s =
     (case base s of
        None \<Rightarrow> len s = 0 \<and> cap s = 0
      | Some a \<Rightarrow> a < length H \<and> len s \<le> cap s \<and> off s + cap s \<le> length (H ! a))"

text \<open>\<^verbatim>\<open>make([]byte, n)\<close>: a new zeroed array of \<open>n\<close> bytes and the slice of all of it.\<close>

definition make :: "heap \<Rightarrow> nat \<Rightarrow> slice \<times> heap" where
  "make H n = (\<lparr>base = Some (length H), off = 0, len = n, cap = n\<rparr>, H @ [replicate n 0])"

text \<open>
  \<^verbatim>\<open>copy(dst, src)\<close> writes the first \<open>min (len dst) (len src)\<close> bytes of \<open>src\<close>
  over the start of \<open>dst\<close>.
\<close>

definition copy :: "heap \<Rightarrow> slice \<Rightarrow> slice \<Rightarrow> heap" where
  "copy H dst src =
     (let n = min (len dst) (len src) in
      case base dst of
        None \<Rightarrow> H
      | Some a \<Rightarrow>
          H[a := take (off dst) (H ! a) @ take n (contents H src) @ drop (off dst + n) (H ! a)])"

text \<open>
  \<^verbatim>\<open>s[:j]\<close> and \<^verbatim>\<open>s[i:]\<close>, with the run-time bounds checks
  \<open>0 \<le> j \<le> cap s\<close> and \<open>0 \<le> i \<le> len s\<close>.
\<close>

definition slice_to :: "slice \<Rightarrow> int \<Rightarrow> error + slice" where
  "slice_to s j =
     (if 0 \<le> j \<and> j \<le> int (cap s) then Inr (s\<lparr>len := nat j\<rparr>)
      else Inl (Panic ''slice bounds out of range''))"

definition slice_from :: "slice \<Rightarrow> int \<Rightarrow> error + slice" where
  "slice_from s i =
     (if 0 \<le> i \<and> i \<le> int (len s) then
        Inr (s\<lparr>off := off s + nat i, len := len s - nat i, cap := cap s - nat i\<rparr>)
      else Inl (Panic ''slice bounds out of range''))"



subsection \<open>SliceForAppend\<close>

text \<open>
  Go's \<^verbatim>\<open>int\<close> has 64 bits and its addition wraps around: \<open>int64 k\<close> is the value of
  the mathematical integer \<open>k\<close> as a 64-bit two's complement number.
\<close>

definition int64 :: "int \<Rightarrow> int" where
  "int64 k = signed_take_bit 63 k"

text \<open>
  \<^verbatim>\<open>make([]byte, n)\<close> for an \<^verbatim>\<open>int\<close> \<open>n\<close> that is not known to be the length of an
  existing slice: the run-time's \<^verbatim>\<open>makeslice\<close> panics when \<open>n\<close> is negative or above
  \<^verbatim>\<open>maxAlloc\<close> (\<open>2^48\<close> bytes on the 64-bit platforms where \<^verbatim>\<open>int\<close> has 64 bits),
  and allocates otherwise.
\<close>

definition maxAlloc :: nat where
  "maxAlloc = 2 ^ 48"

definition makeslice :: "heap \<Rightarrow> int \<Rightarrow> error + slice \<times> heap" where
  "makeslice H n =
     (if n < 0 \<or> int maxAlloc < n then Inl (Panic ''makeslice: len out of range'')
      else Inr (make H (nat n)))"

text \<open>
  \<^verbatim>\<open>total := len(in) + n\<close> is a sum of two \<^verbatim>\<open>int\<close>s and wraps around;
  \<^verbatim>\<open>in[:total]\<close> and \<^verbatim>\<open>head[len(in):]\<close> are bounds-checked.
\<close>

definition SliceForAppend :: "heap \<Rightarrow> slice \<Rightarrow> int \<Rightarrow> (error + slice \<times> slice) \<times> heap" where
  "SliceForAppend H in' n =
     (let total = int64 (int (len in') + n) in
      if int (cap in') \<ge> total then
        (case slice_to in' total of
           Inl p \<Rightarrow> (Inl p, H)
         | Inr head \<Rightarrow>
             (case slice_from head (int (len in')) of
                Inl p \<Rightarrow> (Inl p, H)
              | Inr tail \<Rightarrow> (Inr (head, tail), H)))
      else
        (case makeslice H total of
           Inl p \<Rightarrow> (Inl p, H)
         | Inr (head, H1) \<Rightarrow>
             (let H2 = copy H1 head in' in
              case slice_from head (int (len in')) of
                Inl p \<Rightarrow> (Inl p, H2)
              | Inr tail \<Rightarrow> (Inr (head, tail), H2))))"

subsection \<open>maskedNonce on the store\<close>




section \<open>Runs of calls\<close>



section \<open>Notions of the specification\<close>

text \<open>
  The byte \<^verbatim>\<open>byte(sequence >> uint64(56-uint64Size*i))\<close> that step \<open>i\<close> of the
  loop of \<^verbatim>\<open>maskedNonce\<close> XORs into the copy.
\<close>

definition seqByte :: "64 word \<Rightarrow> nat \<Rightarrow> byte" where
  "seqByte s i = ucast (drop_bit (56 - 8 * i) s)"

text \<open>
  "Rendered big-endian": the \<open>k\<close> bytes of the number \<open>v\<close>, most significant byte
  first; \<open>beValue\<close> reads a byte string back as a big-endian number.
\<close>

fun bigEndian :: "nat \<Rightarrow> nat \<Rightarrow> bytes" where
  "bigEndian 0 v = []"
| "bigEndian (Suc k) v = of_nat (v div 256 ^ k mod 256) # bigEndian k v"


text \<open>
  The per-record nonce in the words of the specification: the static nonce with its
  last 8 bytes XORed against the sequence number rendered big-endian, the leading
  bytes unchanged.
\<close>

definition spec_maskedNonce :: "bytes \<Rightarrow> 64 word \<Rightarrow> bytes" where
  "spec_maskedNonce n s =
     take (length n - 8) n @ map2 (XOR) (drop (length n - 8) n) (bigEndian 8 (unat s))"

section \<open>Test doubles\<close>

text \<open>
  Concrete implementations of the interfaces, on which the theorems are instantiated.
  \<open>fakeCrypter\<close> follows the \<^verbatim>\<open>fakeAEAD\<close> of the tests (sealing returns the
  plaintext, opening the ciphertext); its state is its key. \<open>toyExpander\<close> returns
  \<open>length\<close> bytes that depend on the secret and the info; \<open>constExpander\<close> returns
  \<open>length\<close> bytes that do not.
\<close>

definition fakeCrypter :: "bytes \<Rightarrow> bytes s2aAeadCrypter" where
  "fakeCrypter k =
     \<lparr>crypterState = k,
      encrypt = (\<lambda>st dst plaintext n aad. Inr plaintext),
      decrypt = (\<lambda>st dst ciphertext n aad. Inr ciphertext),
      updateKey = (\<lambda>st k'. (None, k'))\<rparr>"

definition toyExpander :: "unit hkdfExpander" where
  "toyExpander hf secret info length' =
     (if length' < 0 then Inl DerivationError
      else Inr (map (\<lambda>i. of_nat i + of_nat (length secret) + sum_list info) [0..<nat length']))"

definition constExpander :: "unit hkdfExpander" where
  "constExpander hf secret info length' = Inr (replicate (nat length') 1)"

definition toyCiphersuite :: "Ciphersuite \<Rightarrow> (unit, bytes) ciphersuite" where
  "toyCiphersuite c =
     \<lparr>cs_keySize = (case c of AES_128_GCM_SHA256 \<Rightarrow> 16 | _ \<Rightarrow> 32),
      cs_nonceSize = 12,
      cs_trafficSecretSize = (case c of AES_256_GCM_SHA384 \<Rightarrow> 48 | _ \<Rightarrow> 32),
      cs_hashFunction = (),
      cs_aeadCrypter = (\<lambda>k. Inr (fakeCrypter k))\<rparr>"

definition toyHalfConn :: "(unit, bytes) S2AHalfConnection" where
  "toyHalfConn =
     \<lparr>cs = toyCiphersuite AES_128_GCM_SHA256, h = (),
      aeadCrypter = Some (fakeCrypter (replicate 16 7)),
      expander = toyExpander, seqCounter = newCounter,
      trafficSecret = replicate 32 9,
      nonce = [1, 2, 3, 4, 5, 6, 7, 8, 9, 10, 11, 12],
      key = replicate 16 7\<rparr>"

text \<open>
  The half connection \<^verbatim>\<open>NewHalfConn\<close> returns for the AES-128 suite, \<open>constExpander\<close>
  and a secret of 32 zero bytes.
\<close>

definition constHalfConn :: "(unit, bytes) S2AHalfConnection" where
  "constHalfConn =
     \<lparr>cs = toyCiphersuite AES_128_GCM_SHA256, h = (),
      aeadCrypter = Some (fakeCrypter (replicate 16 1)),
      expander = constExpander, seqCounter = newCounter,
      trafficSecret = replicate 32 0,
      nonce = replicate 12 1,
      key = replicate 16 1\<rparr>"

text \<open>\<open>toyHalfConn\<close> with a counter that has overflowed.\<close>

definition overflowedHalfConn :: "(unit, bytes) S2AHalfConnection" where
  "overflowedHalfConn = toyHalfConn\<lparr>seqCounter := \<lparr>val = 0, hasOverflowed = True\<rparr>\<rparr>"

text \<open>An expander that always fails.\<close>

definition failingExpander :: "unit hkdfExpander" where
  "failingExpander hf secret info length' = Inl DerivationError"

text \<open>\<open>toyCiphersuite\<close> with another crypter constructor.\<close>

definition toyCiphersuite2 :: "Ciphersuite \<Rightarrow> (unit, bytes) ciphersuite" where
  "toyCiphersuite2 c = (toyCiphersuite c)\<lparr>cs_aeadCrypter := (\<lambda>k. Inr (fakeCrypter (rev k @ [0])))\<rparr>"

text \<open>
  The HKDF-Expand-Label structure in the words of the specification: the 2-byte
  big-endian length, the 1-byte-length-prefixed label, and the 1-byte-length-prefixed
  empty context.
\<close>

definition spec_hkdfLabel :: "bytes \<Rightarrow> nat \<Rightarrow> bytes" where
  "spec_hkdfLabel label l =
     bigEndian 2 l @ (bigEndian 1 (length label) @ label) @ (bigEndian 1 0 @ [])"

text \<open>
  The buffers of the tests of \<^verbatim>\<open>SliceForAppend\<close>: a store with one array of five bytes
  \<^verbatim>\<open>0x11\<close>, the slice of all of it, and the empty slice of capacity 5 at its start.
\<close>

definition heap5 :: heap where
  "heap5 = [replicate 5 0x11]"

definition bufFull :: slice where
  "bufFull = \<lparr>base = Some 0, off = 0, len = 5, cap = 5\<rparr>"

definition bufCap5 :: slice where
  "bufCap5 = \<lparr>base = Some 0, off = 0, len = 0, cap = 5\<rparr>"




section \<open>The per-record nonce\<close>

lemma loop_nth:
  "i \<le> 8 \<Longrightarrow> 12 \<le> length n \<Longrightarrow>
   \<exists>r. maskedNonce_loop i s n = Inr r \<and> length r = length n \<and>
     (\<forall>k<length n. r ! k = (if 4 + i \<le> k \<and> k < 12 then n ! k XOR seqByte s (k - 4) else n ! k))"
proof (induction i s n rule: maskedNonce_loop.induct)
  case (1 i s n)
  show ?case
  proof (cases "i < 8")
    case False
    with 1(2) have "i = 8" by simp
    then show ?thesis by (auto simp: maskedNonce_loop.simps[of 8] uint64Size_def)
  next
    case True
    let ?n' = "n[4 + i := (n ! (4 + i)) XOR seqByte s i]"
    have idx: "4 + i < length n" using True 1(3) by simp
    have e1: "nonceSize - uint64Size + i = 4 + i"
      by (simp add: uint64Size_def nonceSize_def)
    have e2: "ucast (drop_bit (56 - uint64Size * i) s) = seqByte s i"
      by (simp add: uint64Size_def seqByte_def)
    have "i < uint64Size" using True by (simp add: uint64Size_def)
    moreover have "nonceSize - uint64Size + i < length n" using idx e1 by simp
    moreover have "Suc i \<le> 8" using True by simp
    moreover have "12 \<le> length ?n'" using 1(3) by simp
    ultimately have IH: "\<exists>r. maskedNonce_loop (Suc i) s ?n' = Inr r \<and> length r = length ?n' \<and>
     (\<forall>k<length ?n'. r ! k = (if 4 + Suc i \<le> k \<and> k < 12 then ?n' ! k XOR seqByte s (k - 4) else ?n' ! k))"
      using 1(1)[OF _ refl] unfolding e1 e2 by blast
    then obtain r where r: "maskedNonce_loop (Suc i) s ?n' = Inr r" "length r = length n"
      "\<forall>k<length n. r ! k = (if 4 + Suc i \<le> k \<and> k < 12 then ?n' ! k XOR seqByte s (k - 4) else ?n' ! k)"
      by auto
    have step: "maskedNonce_loop i s n = maskedNonce_loop (Suc i) s ?n'"
      using True idx
      by (subst maskedNonce_loop.simps) (simp add: e1 e2 Let_def, simp add: uint64Size_def)
    show ?thesis
      unfolding step using r idx True
      by (auto simp: nth_list_update)
  qed
qed


lemma pow256: "(256::nat) ^ k = 2 ^ (8 * k)"
  by (simp add: power_mult)

lemma of_nat_mod256: "(of_nat (x mod 256) :: byte) = of_nat x"
  by (simp add: word_of_nat_eq_iff take_bit_eq_mod)

lemma seqByte_nat: "i < 8 \<Longrightarrow> seqByte s i = of_nat (unat s div 256 ^ (7 - i) mod 256)"
proof -
  assume "i < 8"
  then have e: "56 - 8 * i = 8 * (7 - i)" by simp
  have "seqByte s i = of_nat (unat (drop_bit (56 - 8 * i) s))"
    by (simp add: seqByte_def)
  also have "\<dots> = of_nat (unat s div 256 ^ (7 - i))"
    by (simp add: unat_drop_bit_eq drop_bit_nat_def pow256 e)
  finally show ?thesis by (simp add: of_nat_mod256)
qed

lemma length_bigEndian [simp]: "length (bigEndian k v) = k"
  by (induction k) auto

lemma nth_bigEndian: "i < k \<Longrightarrow> bigEndian k v ! i = of_nat (v div 256 ^ (k - 1 - i) mod 256)"
proof (induction k arbitrary: i)
  case 0
  then show ?case by simp
next
  case (Suc k)
  then show ?case by (cases i) auto
qed



lemma maskedNonce_loop_eq:
  assumes "12 \<le> length n"
  shows "maskedNonce_loop 0 s n =
    Inr (take 4 n @ map2 (XOR) (take 8 (drop 4 n)) (bigEndian 8 (unat s)) @ drop 12 n)"
proof -
  from loop_nth[of 0 n s] assms obtain r where r: "maskedNonce_loop 0 s n = Inr r"
    "length r = length n"
    "\<forall>k<length n. r ! k = (if 4 \<le> k \<and> k < 12 then n ! k XOR seqByte s (k - 4) else n ! k)"
    by auto
  have "r = take 4 n @ map2 (XOR) (take 8 (drop 4 n)) (bigEndian 8 (unat s)) @ drop 12 n"
  proof (rule nth_equalityI)
    show "length r = length (take 4 n @ map2 (XOR) (take 8 (drop 4 n)) (bigEndian 8 (unat s)) @ drop 12 n)"
      using assms r(2) by simp
  next
    fix k assume "k < length r"
    then have k: "k < length n" using r(2) by simp
    consider "k < 4" | "4 \<le> k" "k < 12" | "12 \<le> k" by linarith
    then show "r ! k = (take 4 n @ map2 (XOR) (take 8 (drop 4 n)) (bigEndian 8 (unat s)) @ drop 12 n) ! k"
    proof cases
      case 1
      then show ?thesis using r(3) k assms by (simp add: nth_append)
    next
      case 2
      then have "k - 4 < 8" by simp
      then show ?thesis using r(3) k assms 2
        by (simp add: nth_append nth_bigEndian seqByte_nat)
    next
      case 3
      then have "\<not> k - 4 < 8" "k - 4 - 8 = k - 12" by simp_all
      then show ?thesis using r(3) k assms 3 by (simp add: nth_append)
    qed
  qed
  with r(1) show ?thesis by simp
qed


lemma bigEndian_pos:
  "0 < k \<Longrightarrow> bigEndian k v = of_nat (v div 256 ^ (k - 1) mod 256) # bigEndian (k - 1) v"
  by (cases k) auto

lemma bigEndian_8:
  "bigEndian 8 v =
     [of_nat (v div 256 ^ 7 mod 256), of_nat (v div 256 ^ 6 mod 256),
      of_nat (v div 256 ^ 5 mod 256), of_nat (v div 256 ^ 4 mod 256),
      of_nat (v div 256 ^ 3 mod 256), of_nat (v div 256 ^ 2 mod 256),
      of_nat (v div 256 mod 256), of_nat (v mod 256)]"
  by (simp add: bigEndian_pos)

lemma be: "bigEndian 8 258 = [0, 0, 0, 0, 0, 0, 1, 2]"
  by (simp add: bigEndian_8)

text \<open>
  C1. For a static nonce of the ciphersuites' nonce size (12 bytes), the per-record
  nonce computed for sequence number \<open>s\<close> is the static nonce with its last 8 bytes
  XORed against \<open>s\<close> rendered big-endian, the leading 4 bytes unchanged.
\<close>

theorem maskedNonce_is_spec:
  "length (nonce hc) = nonceSize \<Longrightarrow> maskedNonce hc s = Inr (spec_maskedNonce (nonce hc) s)"
proof -
  assume len: "length (nonce hc) = nonceSize"
  then have "12 \<le> length (nonce hc)" by (simp add: nonceSize_def)
  from maskedNonce_loop_eq[OF this, of s] len
  show ?thesis
    by (simp add: maskedNonce_def spec_maskedNonce_def nonceSize_def)
qed

theorem maskedNonce_is_spec_witness:
  "length (nonce toyHalfConn) = nonceSize \<and>
   maskedNonce toyHalfConn 258 = Inr [1, 2, 3, 4, 5, 6, 7, 8, 9, 10, 10, 14]"
proof -
  have len: "length (nonce toyHalfConn) = nonceSize"
    by (simp add: toyHalfConn_def nonceSize_def)
  have n: "nonce toyHalfConn = [1, 2, 3, 4, 5, 6, 7, 8, 9, 10, 11, 12]"
    by (simp add: toyHalfConn_def)
  have "spec_maskedNonce (nonce toyHalfConn) 258 = [1, 2, 3, 4, 5, 6, 7, 8, 9, 10, 10, 14]"
    unfolding n by (simp add: spec_maskedNonce_def be)
  then show ?thesis
    using maskedNonce_is_spec[OF len, of 258] len by simp
qed

lemma maskedNonce_seqCounter [simp]:
  "maskedNonce (hc\<lparr>seqCounter := c\<rparr>) s = maskedNonce hc s"
  by (simp add: maskedNonce_def)

lemma unat_val_Suc:
  "unat ((v :: 64 word) + 1) = (if unat v + 1 < 2 ^ 64 then unat v + 1 else 0)"
proof -
  have lt: "unat v < 2 ^ 64" using unsigned_less[of v] by simp
  show ?thesis using unat_plus_if'[of v 1] lt by auto
qed

lemma val_Suc_eq_0: "(v :: 64 word) + 1 = 0 \<longleftrightarrow> unat v + 1 = 2 ^ 64"
proof -
  have lt: "unat v < 2 ^ 64" using unsigned_less[of v] by simp
  have "v + 1 = 0 \<longleftrightarrow> unat (v + 1) = 0" by (simp add: unat_eq_0)
  then show ?thesis using lt by (auto simp: unat_val_Suc)
qed

lemma consumed_increment:
  "\<not> hasOverflowed c \<Longrightarrow> consumed (increment c) = consumed c + 1"
proof -
  have lt: "unat (val c) < 2 ^ 64" using unsigned_less[of "val c"] by simp
  assume "\<not> hasOverflowed c"
  then show ?thesis using lt
    by (auto simp: consumed_def increment_def val_Suc_eq_0 unat_val_Suc)
qed

text \<open>
  C2. When reading the sequence counter reports overflow, \<^verbatim>\<open>Encrypt\<close> and \<^verbatim>\<open>Decrypt\<close>
  fail with that error, the half connection is unchanged and no call is made on the
  crypter. Otherwise the counter is advanced by exactly one, whatever the crypter
  then returns (and also when no call on it is made), and a call on the crypter uses
  the nonce masked with the sequence number read before the increment.
\<close>

theorem Encrypt_Decrypt_counter:
  "(counter_value (seqCounter hc) = Inl e \<longrightarrow>
      Encrypt hc dst txt aad = (Inl e, hc, []) \<and> Decrypt hc dst txt aad = (Inl e, hc, []))
   \<and> (counter_value (seqCounter hc) = Inr s \<longrightarrow>
      consumed (increment (seqCounter hc)) = consumed (seqCounter hc) + 1 \<and>
      (\<exists>r ev. Encrypt hc dst txt aad = (r, hc\<lparr>seqCounter := increment (seqCounter hc)\<rparr>, ev) \<and>
          (ev = [] \<or>
           (\<exists>n c. maskedNonce hc s = Inr n \<and> aeadCrypter hc = Some c \<and>
              ev = [AeadEncrypt dst txt n aad] \<and>
              r = encrypt c (crypterState c) dst txt n aad))) \<and>
      (\<exists>r ev. Decrypt hc dst txt aad = (r, hc\<lparr>seqCounter := increment (seqCounter hc)\<rparr>, ev) \<and>
          (ev = [] \<or>
           (\<exists>n c. maskedNonce hc s = Inr n \<and> aeadCrypter hc = Some c \<and>
              ev = [AeadDecrypt dst txt n aad] \<and>
              r = decrypt c (crypterState c) dst txt n aad))))"
proof (intro conjI impI)
  assume "counter_value (seqCounter hc) = Inl e"
  then show "Encrypt hc dst txt aad = (Inl e, hc, [])"
    by (simp add: Encrypt_def getAndIncrementSequence_def)
next
  assume "counter_value (seqCounter hc) = Inl e"
  then show "Decrypt hc dst txt aad = (Inl e, hc, [])"
    by (simp add: Decrypt_def getAndIncrementSequence_def)
next
  assume "counter_value (seqCounter hc) = Inr s"
  then have "\<not> hasOverflowed (seqCounter hc)"
    by (simp add: counter_value_def split: if_splits)
  then show "consumed (increment (seqCounter hc)) = consumed (seqCounter hc) + 1"
    by (rule consumed_increment)
next
  assume "counter_value (seqCounter hc) = Inr s"
  then show "\<exists>r ev. Encrypt hc dst txt aad = (r, hc\<lparr>seqCounter := increment (seqCounter hc)\<rparr>, ev) \<and>
          (ev = [] \<or>
           (\<exists>n c. maskedNonce hc s = Inr n \<and> aeadCrypter hc = Some c \<and>
              ev = [AeadEncrypt dst txt n aad] \<and>
              r = encrypt c (crypterState c) dst txt n aad))"
    by (simp add: Encrypt_def getAndIncrementSequence_def split: sum.splits option.splits)
next
  assume "counter_value (seqCounter hc) = Inr s"
  then show "\<exists>r ev. Decrypt hc dst txt aad = (r, hc\<lparr>seqCounter := increment (seqCounter hc)\<rparr>, ev) \<and>
          (ev = [] \<or>
           (\<exists>n c. maskedNonce hc s = Inr n \<and> aeadCrypter hc = Some c \<and>
              ev = [AeadDecrypt dst txt n aad] \<and>
              r = decrypt c (crypterState c) dst txt n aad))"
    by (simp add: Decrypt_def getAndIncrementSequence_def split: sum.splits option.splits)
qed


theorem Encrypt_Decrypt_counter_witness:
  "counter_value (seqCounter overflowedHalfConn) = Inl SequenceOverflowError \<and>
   Encrypt overflowedHalfConn [] [1, 2] [3] = (Inl SequenceOverflowError, overflowedHalfConn, []) \<and>
   Decrypt overflowedHalfConn [] [1, 2] [3] = (Inl SequenceOverflowError, overflowedHalfConn, []) \<and>
   counter_value (seqCounter toyHalfConn) = Inr 0 \<and>
   consumed (increment (seqCounter toyHalfConn)) = consumed (seqCounter toyHalfConn) + 1 \<and>
   fst (snd (Encrypt toyHalfConn [] [1, 2] [3])) =
     toyHalfConn\<lparr>seqCounter := increment (seqCounter toyHalfConn)\<rparr> \<and>
   fst (snd (Decrypt toyHalfConn [] [1, 2] [3])) =
     toyHalfConn\<lparr>seqCounter := increment (seqCounter toyHalfConn)\<rparr>"
proof -
  have o: "counter_value (seqCounter overflowedHalfConn) = Inl SequenceOverflowError"
    by (simp add: overflowedHalfConn_def counter_value_def)
  have v: "counter_value (seqCounter toyHalfConn) = Inr 0"
    by (simp add: toyHalfConn_def counter_value_def newCounter_def)
  show ?thesis
    using Encrypt_Decrypt_counter[of overflowedHalfConn SequenceOverflowError "[]" "[1, 2]" "[3]" 0]
      Encrypt_Decrypt_counter[of toyHalfConn SequenceOverflowError "[]" "[1, 2]" "[3]" 0] o v
    by auto
qed

section \<open>Key derivation\<close>

lemma hkdfLabel_long: "255 < length label \<Longrightarrow> hkdfLabel label l = Inl BuilderError"
  by (simp add: hkdfLabel_def AddUint8LengthPrefixed_def AddUint16_def)

lemma hkdfLabel_short:
  "length label \<le> 255 \<Longrightarrow>
   hkdfLabel label l =
     Inr ([ucast (drop_bit 8 (word_of_int l :: 16 word)), ucast (word_of_int l :: 16 word)] @
          [of_nat (length label)] @ label @ [0])"
  by (simp add: hkdfLabel_def AddUint8LengthPrefixed_def AddUint16_def)

lemma uint16_bigEndian:
  assumes "0 \<le> l" "l < 65536"
  shows "[ucast (drop_bit 8 (word_of_int l :: 16 word)), ucast (word_of_int l :: 16 word)] =
         bigEndian 2 (nat l)"
proof -
  have u: "unat (word_of_int l :: 16 word) = nat l"
    using assms by (simp add: unat_eq_nat_uint uint_word_of_int_eq take_bit_eq_mod)
  have hi: "(ucast (drop_bit 8 (word_of_int l :: 16 word)) :: byte) = of_nat (nat l div 256 mod 256)"
  proof -
    have "(ucast (drop_bit 8 (word_of_int l :: 16 word)) :: byte) =
          of_nat (unat (drop_bit 8 (word_of_int l :: 16 word)))" by simp
    also have "\<dots> = of_nat (nat l div 256)"
      by (simp only: unat_drop_bit_eq drop_bit_nat_def u) simp
    finally show ?thesis by (simp only: of_nat_mod256)
  qed
  have lo: "(ucast (word_of_int l :: 16 word) :: byte) = of_nat (nat l mod 256)"
  proof -
    have "(ucast (word_of_int l :: 16 word) :: byte) = of_nat (unat (word_of_int l :: 16 word))"
      by simp
    then show ?thesis by (simp only: u of_nat_mod256)
  qed
  show ?thesis unfolding hi lo by (simp add: bigEndian_pos)
qed

lemma deriveSecret_fields:
  "expander hc' = expander hc \<Longrightarrow> h hc' = h hc \<Longrightarrow>
   deriveSecret hc' secret label l = deriveSecret hc secret label l"
  by (simp add: deriveSecret_def split: sum.splits)


lemma label_lengths:
  "length tls13Key = 9" "length tls13Nonce = 8" "length tls13Update = 17"
  by (simp_all add: tls13Key_def tls13Nonce_def tls13Update_def bytes_of_def)

lemma label_bytes:
  "tls13Key = [0x74, 0x6c, 0x73, 0x31, 0x33, 0x20, 0x6b, 0x65, 0x79]"
  "tls13Nonce = [0x74, 0x6c, 0x73, 0x31, 0x33, 0x20, 0x69, 0x76]"
  "tls13Update = [0x74, 0x6c, 0x73, 0x31, 0x33, 0x20, 0x74, 0x72, 0x61, 0x66, 0x66, 0x69, 0x63,
                  0x20, 0x75, 0x70, 0x64]"
  by (simp_all add: tls13Key_def tls13Nonce_def tls13Update_def bytes_of_def)

lemma deriveSecret_short:
  "length label \<le> 255 \<Longrightarrow>
   \<exists>info. hkdfLabel label l = Inr info \<and>
     deriveSecret hc secret label l =
       (expander hc (h hc) secret info l, [HkdfExpand secret info l])"
  by (simp add: deriveSecret_def hkdfLabel_short)

lemma updateWithNewTrafficSecret_cases:
  obtains
    (key_fails) ikey e where
      "hkdfLabel tls13Key (cs_keySize (cs hc)) = Inr ikey"
      "expander hc (h hc) s ikey (cs_keySize (cs hc)) = Inl e"
      "updateWithNewTrafficSecret hc s =
         (Some (Errorf ''hc.deriveSecret'' e), hc\<lparr>key := []\<rparr>,
          [HkdfExpand s ikey (cs_keySize (cs hc))])"
  | (nonce_fails) ikey inonce k e where
      "hkdfLabel tls13Key (cs_keySize (cs hc)) = Inr ikey"
      "hkdfLabel tls13Nonce (cs_nonceSize (cs hc)) = Inr inonce"
      "expander hc (h hc) s ikey (cs_keySize (cs hc)) = Inr k"
      "expander hc (h hc) s inonce (cs_nonceSize (cs hc)) = Inl e"
      "updateWithNewTrafficSecret hc s =
         (Some (Errorf ''hc.deriveSecret'' e), hc\<lparr>key := k, nonce := []\<rparr>,
          [HkdfExpand s ikey (cs_keySize (cs hc)), HkdfExpand s inonce (cs_nonceSize (cs hc))])"
  | (ok) ikey inonce k n where
      "hkdfLabel tls13Key (cs_keySize (cs hc)) = Inr ikey"
      "hkdfLabel tls13Nonce (cs_nonceSize (cs hc)) = Inr inonce"
      "expander hc (h hc) s ikey (cs_keySize (cs hc)) = Inr k"
      "expander hc (h hc) s inonce (cs_nonceSize (cs hc)) = Inr n"
      "updateWithNewTrafficSecret hc s =
         (None, hc\<lparr>key := k, nonce := n\<rparr>,
          [HkdfExpand s ikey (cs_keySize (cs hc)), HkdfExpand s inonce (cs_nonceSize (cs hc))])"
proof -
  obtain ikey where ikey: "hkdfLabel tls13Key (cs_keySize (cs hc)) = Inr ikey"
    by (simp add: hkdfLabel_short label_lengths)
  obtain inonce where inonce: "hkdfLabel tls13Nonce (cs_nonceSize (cs hc)) = Inr inonce"
    by (simp add: hkdfLabel_short label_lengths)
  show ?thesis
  proof (cases "expander hc (h hc) s ikey (cs_keySize (cs hc))")
    case (Inl e)
    then show ?thesis
      using ikey key_fails[of ikey e]
      by (simp add: updateWithNewTrafficSecret_def deriveSecret_def)
  next
    case k: (Inr k)
    show ?thesis
    proof (cases "expander hc (h hc) s inonce (cs_nonceSize (cs hc))")
      case (Inl e)
      then show ?thesis
        using ikey inonce k nonce_fails[of ikey inonce k e]
        by (simp add: updateWithNewTrafficSecret_def deriveSecret_def)
    next
      case (Inr n)
      then show ?thesis
        using ikey inonce k ok[of ikey inonce k n]
        by (simp add: updateWithNewTrafficSecret_def deriveSecret_def)
    qed
  qed
qed


section \<open>Construction\<close>

lemma NewHalfConn_InrE:
  assumes "NewHalfConn nc ex c s = (Inr hc, ev)"
  obtains ikey inonce k n cr where
    "cs_trafficSecretSize (nc c) = int (length s)"
    "hkdfLabel tls13Key (cs_keySize (nc c)) = Inr ikey"
    "hkdfLabel tls13Nonce (cs_nonceSize (nc c)) = Inr inonce"
    "ex (cs_hashFunction (nc c)) s ikey (cs_keySize (nc c)) = Inr k"
    "ex (cs_hashFunction (nc c)) s inonce (cs_nonceSize (nc c)) = Inr n"
    "cs_aeadCrypter (nc c) k = Inr cr"
    "hc = \<lparr>cs = nc c, h = cs_hashFunction (nc c), aeadCrypter = Some cr, expander = ex,
           seqCounter = newCounter, trafficSecret = s, nonce = n, key = k\<rparr>"
    "ev = [HkdfExpand s ikey (cs_keySize (nc c)), HkdfExpand s inonce (cs_nonceSize (nc c)),
           NewAeadCrypter k]"
proof -
  let ?hc0 = "\<lparr>cs = nc c, h = cs_hashFunction (nc c), aeadCrypter = None, expander = ex,
           seqCounter = newCounter, trafficSecret = s, nonce = [], key = []\<rparr>"
  have size: "cs_trafficSecretSize (nc c) = int (length s)"
    using assms by (auto simp: NewHalfConn_def Let_def split: if_splits)
  then have N: "NewHalfConn nc ex c s =
     (case updateWithNewTrafficSecret ?hc0 s of
           (Some err, hc1, ev) \<Rightarrow> (Inl (Errorf ''hc.updateWithNewTrafficSecret'' err), ev)
         | (None, hc1, ev) \<Rightarrow>
             (case cs_aeadCrypter (nc c) (key hc1) of
                Inl err \<Rightarrow> (Inl (Errorf ''cs.aeadCrypter'' err), ev @ [NewAeadCrypter (key hc1)])
              | Inr c \<Rightarrow>
                  (Inr (hc1\<lparr>aeadCrypter := Some c\<rparr>), ev @ [NewAeadCrypter (key hc1)])))"
    by (simp add: NewHalfConn_def Let_def)
  show ?thesis
  proof (cases rule: updateWithNewTrafficSecret_cases[of ?hc0 s])
    case (key_fails ikey e)
    then show ?thesis using assms unfolding N by simp
  next
    case (nonce_fails ikey inonce k e)
    then show ?thesis using assms unfolding N by simp
  next
    case (ok ikey inonce k n)
    show ?thesis
    proof (cases "cs_aeadCrypter (nc c) k")
      case (Inl e)
      then show ?thesis using assms ok unfolding N by simp
    next
      case (Inr cr)
      show ?thesis
      proof (rule that[of ikey inonce k n cr])
        show "cs_trafficSecretSize (nc c) = int (length s)" by (rule size)
        show "hkdfLabel tls13Key (cs_keySize (nc c)) = Inr ikey" using ok(1) by simp
        show "hkdfLabel tls13Nonce (cs_nonceSize (nc c)) = Inr inonce" using ok(2) by simp
        show "ex (cs_hashFunction (nc c)) s ikey (cs_keySize (nc c)) = Inr k" using ok(3) by simp
        show "ex (cs_hashFunction (nc c)) s inonce (cs_nonceSize (nc c)) = Inr n" using ok(4) by simp
        show "cs_aeadCrypter (nc c) k = Inr cr" by (rule Inr)
        show "hc = \<lparr>cs = nc c, h = cs_hashFunction (nc c), aeadCrypter = Some cr, expander = ex,
           seqCounter = newCounter, trafficSecret = s, nonce = n, key = k\<rparr>"
          using assms ok(5) Inr unfolding N by simp
        show "ev = [HkdfExpand s ikey (cs_keySize (nc c)), HkdfExpand s inonce (cs_nonceSize (nc c)),
           NewAeadCrypter k]"
          using assms ok(5) Inr unfolding N by simp
      qed
    qed
  qed
qed

text \<open>
  C6. A traffic secret whose length differs from the ciphersuite's traffic-secret size
  makes \<^verbatim>\<open>NewHalfConn\<close> fail with its size error before any call on the expander or
  on the crypter constructor (the list of calls is empty). And when a call on the
  expander made during construction fails, construction fails and no crypter was
  built.
\<close>

theorem NewHalfConn_failures:
  "(cs_trafficSecretSize (nc c) \<noteq> int (length secret) \<longrightarrow>
      NewHalfConn nc ex c secret = (Inl ConfigurationError, []))
   \<and> (\<forall>s i l e.
        HkdfExpand s i l \<in> set (snd (NewHalfConn nc ex c secret)) \<and>
        ex (cs_hashFunction (nc c)) s i l = Inl e \<longrightarrow>
        isl (fst (NewHalfConn nc ex c secret)) \<and>
        (\<forall>k. NewAeadCrypter k \<notin> set (snd (NewHalfConn nc ex c secret))))"
proof (intro conjI impI allI)
  assume "cs_trafficSecretSize (nc c) \<noteq> int (length secret)"
  then show "NewHalfConn nc ex c secret = (Inl ConfigurationError, [])"
    by (simp add: NewHalfConn_def)
next
  fix s i l e
  assume a: "HkdfExpand s i l \<in> set (snd (NewHalfConn nc ex c secret)) \<and>
        ex (cs_hashFunction (nc c)) s i l = Inl e"
  let ?hc0 = "\<lparr>cs = nc c, h = cs_hashFunction (nc c), aeadCrypter = None, expander = ex,
           seqCounter = newCounter, trafficSecret = secret, nonce = [], key = []\<rparr>"
  have size: "cs_trafficSecretSize (nc c) = int (length secret)"
    using a by (auto simp: NewHalfConn_def Let_def split: if_splits)
  then have N: "NewHalfConn nc ex c secret =
     (case updateWithNewTrafficSecret ?hc0 secret of
           (Some err, hc1, ev) \<Rightarrow> (Inl (Errorf ''hc.updateWithNewTrafficSecret'' err), ev)
         | (None, hc1, ev) \<Rightarrow>
             (case cs_aeadCrypter (nc c) (key hc1) of
                Inl err \<Rightarrow> (Inl (Errorf ''cs.aeadCrypter'' err), ev @ [NewAeadCrypter (key hc1)])
              | Inr c \<Rightarrow>
                  (Inr (hc1\<lparr>aeadCrypter := Some c\<rparr>), ev @ [NewAeadCrypter (key hc1)])))"
    by (simp add: NewHalfConn_def Let_def)
  have "isl (fst (NewHalfConn nc ex c secret)) \<and>
        (\<forall>k. NewAeadCrypter k \<notin> set (snd (NewHalfConn nc ex c secret)))"
  proof (cases rule: updateWithNewTrafficSecret_cases[of ?hc0 secret])
    case (key_fails ikey e)
    then show ?thesis unfolding N by simp
  next
    case (nonce_fails ikey inonce k e)
    then show ?thesis unfolding N by simp
  next
    case (ok ikey inonce k n)
    then have False using a unfolding N by (auto split: sum.splits)
    then show ?thesis ..
  qed
  then show "isl (fst (NewHalfConn nc ex c secret))"
    and "\<And>k. NewAeadCrypter k \<notin> set (snd (NewHalfConn nc ex c secret))" by simp_all
qed

lemma hkdfLabel_tls13Key_16: "hkdfLabel tls13Key 16 = Inr ([0, 16, 9] @ tls13Key @ [0])"
  by (simp add: hkdfLabel_short label_lengths)

theorem NewHalfConn_failures_witness:
  "cs_trafficSecretSize (toyCiphersuite AES_128_GCM_SHA256) \<noteq> int (length [1, 2, 3 :: byte]) \<and>
   NewHalfConn toyCiphersuite toyExpander AES_128_GCM_SHA256 [1, 2, 3] =
     (Inl ConfigurationError, []) \<and>
   HkdfExpand (replicate 32 0) ([0, 16, 9] @ tls13Key @ [0]) 16 \<in>
     set (snd (NewHalfConn toyCiphersuite failingExpander AES_128_GCM_SHA256 (replicate 32 0))) \<and>
   failingExpander () (replicate 32 0) ([0, 16, 9] @ tls13Key @ [0]) 16 = Inl DerivationError \<and>
   isl (fst (NewHalfConn toyCiphersuite failingExpander AES_128_GCM_SHA256 (replicate 32 0))) \<and>
   NewAeadCrypter [] \<notin>
     set (snd (NewHalfConn toyCiphersuite failingExpander AES_128_GCM_SHA256 (replicate 32 0)))"
proof -
  have size: "cs_trafficSecretSize (toyCiphersuite AES_128_GCM_SHA256) \<noteq> int (length [1, 2, 3 :: byte])"
    by (simp add: toyCiphersuite_def)
  have ev: "snd (NewHalfConn toyCiphersuite failingExpander AES_128_GCM_SHA256 (replicate 32 0)) =
      [HkdfExpand (replicate 32 0) ([0, 16, 9] @ tls13Key @ [0]) 16]"
    by (simp add: NewHalfConn_def toyCiphersuite_def updateWithNewTrafficSecret_def
        deriveSecret_def hkdfLabel_tls13Key_16 failingExpander_def)
  have f: "failingExpander () (replicate 32 0) ([0, 16, 9] @ tls13Key @ [0]) 16 = Inl DerivationError"
    by (simp add: failingExpander_def)
  have hf: "cs_hashFunction (toyCiphersuite AES_128_GCM_SHA256) = ()" by simp
  from NewHalfConn_failures[of toyCiphersuite AES_128_GCM_SHA256 "[1, 2, 3]" toyExpander] size
  have 1: "NewHalfConn toyCiphersuite toyExpander AES_128_GCM_SHA256 [1, 2, 3] =
     (Inl ConfigurationError, [])" by blast
  from NewHalfConn_failures[of toyCiphersuite AES_128_GCM_SHA256 "replicate 32 0" failingExpander]
  have 2: "isl (fst (NewHalfConn toyCiphersuite failingExpander AES_128_GCM_SHA256 (replicate 32 0))) \<and>
     (\<forall>k. NewAeadCrypter k \<notin>
       set (snd (NewHalfConn toyCiphersuite failingExpander AES_128_GCM_SHA256 (replicate 32 0))))"
    using f unfolding ev hf by (meson list.set_intros(1))
  show ?thesis using size 1 2 f unfolding ev by simp
qed

text \<open>
  C8. Key and nonce derivation is deterministic: two half connections constructed from
  the same ciphersuite and the same secret hold the same key and the same static
  nonce. The two constructions may even differ in what the ciphersuite's crypter
  constructor returns: key and nonce depend only on the hash function, the key and
  nonce sizes, the expander and the secret.
\<close>

theorem NewHalfConn_deterministic:
  "NewHalfConn nc ex c secret = (Inr hc1, ev1) \<Longrightarrow>
   NewHalfConn nc' ex c secret = (Inr hc2, ev2) \<Longrightarrow>
   cs_hashFunction (nc' c) = cs_hashFunction (nc c) \<Longrightarrow>
   cs_keySize (nc' c) = cs_keySize (nc c) \<Longrightarrow>
   cs_nonceSize (nc' c) = cs_nonceSize (nc c) \<Longrightarrow>
   key hc1 = key hc2 \<and> nonce hc1 = nonce hc2"
proof -
  assume 1: "NewHalfConn nc ex c secret = (Inr hc1, ev1)"
    and 2: "NewHalfConn nc' ex c secret = (Inr hc2, ev2)"
    and e: "cs_hashFunction (nc' c) = cs_hashFunction (nc c)"
      "cs_keySize (nc' c) = cs_keySize (nc c)" "cs_nonceSize (nc' c) = cs_nonceSize (nc c)"
  from 1 obtain ikey inonce k n where a:
    "hkdfLabel tls13Key (cs_keySize (nc c)) = Inr ikey"
    "hkdfLabel tls13Nonce (cs_nonceSize (nc c)) = Inr inonce"
    "ex (cs_hashFunction (nc c)) secret ikey (cs_keySize (nc c)) = Inr k"
    "ex (cs_hashFunction (nc c)) secret inonce (cs_nonceSize (nc c)) = Inr n"
    "key hc1 = k" "nonce hc1 = n"
    by (elim NewHalfConn_InrE) simp
  from 2 obtain ikey' inonce' k' n' where b:
    "hkdfLabel tls13Key (cs_keySize (nc' c)) = Inr ikey'"
    "hkdfLabel tls13Nonce (cs_nonceSize (nc' c)) = Inr inonce'"
    "ex (cs_hashFunction (nc' c)) secret ikey' (cs_keySize (nc' c)) = Inr k'"
    "ex (cs_hashFunction (nc' c)) secret inonce' (cs_nonceSize (nc' c)) = Inr n'"
    "key hc2 = k'" "nonce hc2 = n'"
    by (elim NewHalfConn_InrE) simp
  from a b e show ?thesis by simp
qed

lemma NewHalfConn_toy:
  "NewHalfConn toyCiphersuite constExpander AES_128_GCM_SHA256 (replicate 32 0) =
     (Inr constHalfConn,
      [HkdfExpand (replicate 32 0) ([0, 16, 9] @ tls13Key @ [0]) 16,
       HkdfExpand (replicate 32 0) ([0, 12, 8] @ tls13Nonce @ [0]) 12,
       NewAeadCrypter (replicate 16 1)])"
  by (simp add: NewHalfConn_def toyCiphersuite_def updateWithNewTrafficSecret_def
        deriveSecret_def hkdfLabel_short label_lengths constExpander_def constHalfConn_def)

lemma NewHalfConn_toy2:
  "NewHalfConn toyCiphersuite2 constExpander AES_128_GCM_SHA256 (replicate 32 0) =
     (Inr (constHalfConn\<lparr>cs := toyCiphersuite2 AES_128_GCM_SHA256,
                          aeadCrypter := Some (fakeCrypter (replicate 16 1 @ [0]))\<rparr>),
      [HkdfExpand (replicate 32 0) ([0, 16, 9] @ tls13Key @ [0]) 16,
       HkdfExpand (replicate 32 0) ([0, 12, 8] @ tls13Nonce @ [0]) 12,
       NewAeadCrypter (replicate 16 1)])"
  by (simp add: NewHalfConn_def toyCiphersuite_def toyCiphersuite2_def
        updateWithNewTrafficSecret_def
        deriveSecret_def hkdfLabel_short label_lengths constExpander_def constHalfConn_def)

theorem NewHalfConn_deterministic_witness:
  "fst (NewHalfConn toyCiphersuite constExpander AES_128_GCM_SHA256 (replicate 32 0)) =
     Inr constHalfConn \<and>
   fst (NewHalfConn toyCiphersuite2 constExpander AES_128_GCM_SHA256 (replicate 32 0)) =
     Inr (constHalfConn\<lparr>cs := toyCiphersuite2 AES_128_GCM_SHA256,
                         aeadCrypter := Some (fakeCrypter (replicate 16 1 @ [0]))\<rparr>) \<and>
   key constHalfConn =
     key (constHalfConn\<lparr>cs := toyCiphersuite2 AES_128_GCM_SHA256,
                         aeadCrypter := Some (fakeCrypter (replicate 16 1 @ [0]))\<rparr>) \<and>
   nonce constHalfConn =
     nonce (constHalfConn\<lparr>cs := toyCiphersuite2 AES_128_GCM_SHA256,
                         aeadCrypter := Some (fakeCrypter (replicate 16 1 @ [0]))\<rparr>)"
proof -
  have "cs_hashFunction (toyCiphersuite2 AES_128_GCM_SHA256) =
          cs_hashFunction (toyCiphersuite AES_128_GCM_SHA256)"
    "cs_keySize (toyCiphersuite2 AES_128_GCM_SHA256) = cs_keySize (toyCiphersuite AES_128_GCM_SHA256)"
    "cs_nonceSize (toyCiphersuite2 AES_128_GCM_SHA256) =
       cs_nonceSize (toyCiphersuite AES_128_GCM_SHA256)"
    by (simp_all add: toyCiphersuite2_def)
  from NewHalfConn_deterministic[OF NewHalfConn_toy NewHalfConn_toy2 this]
  show ?thesis by (simp add: NewHalfConn_toy NewHalfConn_toy2)
qed

lemma bigEndian_1: "l \<le> 255 \<Longrightarrow> bigEndian 1 l = [of_nat l]"
  by (simp add: bigEndian_pos)

lemma hkdfLabel_spec:
  "length label \<le> 255 \<Longrightarrow> 0 \<le> l \<Longrightarrow> l < 65536 \<Longrightarrow>
   hkdfLabel label l = Inr (spec_hkdfLabel label (nat l))"
  using uint16_bigEndian[of l]
  by (simp add: hkdfLabel_short spec_hkdfLabel_def bigEndian_1)

text \<open>
  C5 (as amended). For every secret, every label of at most 255 bytes and every length
  from 0 to 65535, \<^verbatim>\<open>deriveSecret\<close> makes exactly one call on the expander, with the
  info structure of the specification (2-byte big-endian length, length-prefixed label,
  length-prefixed empty context), and returns what that call returns. Construction
  derives the key with the label bytes of "tls13 key" and the ciphersuite's key size,
  and the nonce with the label bytes of "tls13 iv" and its nonce size, from the
  initial secret.
\<close>

theorem deriveSecret_info:
  "(length label \<le> 255 \<and> 0 \<le> l \<and> l < 65536 \<longrightarrow>
      deriveSecret hc secret label l =
        (expander hc (h hc) secret (spec_hkdfLabel label (nat l)) l,
         [HkdfExpand secret (spec_hkdfLabel label (nat l)) l]))
   \<and> (NewHalfConn nc ex c secret = (Inr hc', ev) \<longrightarrow>
        fst (deriveSecret hc' secret tls13Key (cs_keySize (nc c))) = Inr (key hc') \<and>
        fst (deriveSecret hc' secret tls13Nonce (cs_nonceSize (nc c))) = Inr (nonce hc') \<and>
        ev = snd (deriveSecret hc' secret tls13Key (cs_keySize (nc c))) @
             snd (deriveSecret hc' secret tls13Nonce (cs_nonceSize (nc c))) @
             [NewAeadCrypter (key hc')])
   \<and> tls13Key = [0x74, 0x6c, 0x73, 0x31, 0x33, 0x20, 0x6b, 0x65, 0x79]
   \<and> tls13Nonce = [0x74, 0x6c, 0x73, 0x31, 0x33, 0x20, 0x69, 0x76]"
proof (intro conjI impI)
  assume "length label \<le> 255 \<and> 0 \<le> l \<and> l < 65536"
  then show "deriveSecret hc secret label l =
        (expander hc (h hc) secret (spec_hkdfLabel label (nat l)) l,
         [HkdfExpand secret (spec_hkdfLabel label (nat l)) l])"
    by (simp add: deriveSecret_def hkdfLabel_spec)
next
  assume N: "NewHalfConn nc ex c secret = (Inr hc', ev)"
  then show "fst (deriveSecret hc' secret tls13Key (cs_keySize (nc c))) = Inr (key hc')"
    by (elim NewHalfConn_InrE) (simp add: deriveSecret_def)
  from N show "fst (deriveSecret hc' secret tls13Nonce (cs_nonceSize (nc c))) = Inr (nonce hc')"
    by (elim NewHalfConn_InrE) (simp add: deriveSecret_def)
  from N show "ev = snd (deriveSecret hc' secret tls13Key (cs_keySize (nc c))) @
             snd (deriveSecret hc' secret tls13Nonce (cs_nonceSize (nc c))) @
             [NewAeadCrypter (key hc')]"
    by (elim NewHalfConn_InrE) (simp add: deriveSecret_def)
qed (simp_all add: label_bytes)

theorem deriveSecret_info_witness:
  "length tls13Key \<le> 255 \<and> (0::int) \<le> 16 \<and> (16::int) < 65536 \<and>
   deriveSecret constHalfConn (replicate 32 0) tls13Key 16 =
     (Inr (replicate 16 1), [HkdfExpand (replicate 32 0) ([0, 16, 9] @ tls13Key @ [0]) 16]) \<and>
   NewHalfConn toyCiphersuite constExpander AES_128_GCM_SHA256 (replicate 32 0) =
     (Inr constHalfConn,
      [HkdfExpand (replicate 32 0) ([0, 16, 9] @ tls13Key @ [0]) 16,
       HkdfExpand (replicate 32 0) ([0, 12, 8] @ tls13Nonce @ [0]) 12,
       NewAeadCrypter (replicate 16 1)]) \<and>
   fst (deriveSecret constHalfConn (replicate 32 0) tls13Nonce 12) = Inr (nonce constHalfConn)"
proof -
  have s: "spec_hkdfLabel tls13Key (nat 16) = [0, 16, 9] @ tls13Key @ [0]"
    by (simp add: spec_hkdfLabel_def bigEndian_pos label_lengths)
  have e: "expander constHalfConn (h constHalfConn) (replicate 32 0) ([0, 16, 9] @ tls13Key @ [0]) 16 =
    Inr (replicate 16 1)"
    by (simp add: constHalfConn_def constExpander_def)
  have sz: "cs_nonceSize (toyCiphersuite AES_128_GCM_SHA256) = 12"
    by (simp add: toyCiphersuite_def)
  from deriveSecret_info[where label = tls13Key and l = 16 and hc = constHalfConn
        and secret = "replicate 32 0" and nc = toyCiphersuite and ex = constExpander
        and c = AES_128_GCM_SHA256 and hc' = constHalfConn
        and ev = "snd (NewHalfConn toyCiphersuite constExpander AES_128_GCM_SHA256 (replicate 32 0))"]
  show ?thesis
    unfolding s e sz by (simp add: label_lengths NewHalfConn_toy)
qed

text \<open>
  The claim as stated ("for every secret, label and length") fails for a label of 256
  bytes: the builder reports an error, \<^verbatim>\<open>deriveSecret\<close> returns it and makes no call
  on the expander. (A length outside 0..65535 is encoded modulo \<open>2^16\<close>.)
\<close>

theorem deriveSecret_info_counterexample:
  "deriveSecret toyHalfConn (replicate 32 9) (replicate 256 0) 16 =
     (Inl (Errorf ''deriveSecret'' BuilderError), []) \<and>
   hkdfLabel tls13Key 65536 = Inr ([0, 0, 9] @ tls13Key @ [0])"
  by (simp add: deriveSecret_def hkdfLabel_long hkdfLabel_short label_lengths)

section \<open>Key update\<close>

lemma deriveSecret_update_fields [simp]:
  "deriveSecret (hc\<lparr>trafficSecret := x\<rparr>) = deriveSecret hc"
  "deriveSecret (hc\<lparr>key := y\<rparr>) = deriveSecret hc"
  "deriveSecret (hc\<lparr>nonce := z\<rparr>) = deriveSecret hc"
  by (simp_all add: deriveSecret_def fun_eq_iff split: sum.splits)

lemma UpdateKey_NoneE:
  assumes "UpdateKey hc = (None, hc', ev)"
  obtains iupd ikey inonce s k n cr st where
    "hkdfLabel tls13Update (cs_trafficSecretSize (cs hc)) = Inr iupd"
    "hkdfLabel tls13Key (cs_keySize (cs hc)) = Inr ikey"
    "hkdfLabel tls13Nonce (cs_nonceSize (cs hc)) = Inr inonce"
    "expander hc (h hc) (trafficSecret hc) iupd (cs_trafficSecretSize (cs hc)) = Inr s"
    "expander hc (h hc) s ikey (cs_keySize (cs hc)) = Inr k"
    "expander hc (h hc) s inonce (cs_nonceSize (cs hc)) = Inr n"
    "aeadCrypter hc = Some cr"
    "updateKey cr (crypterState cr) k = (None, st)"
    "hc' = hc\<lparr>trafficSecret := s, key := k, nonce := n,
              aeadCrypter := Some (cr\<lparr>crypterState := st\<rparr>), seqCounter := newCounter\<rparr>"
    "ev = [HkdfExpand (trafficSecret hc) iupd (cs_trafficSecretSize (cs hc)),
           HkdfExpand s ikey (cs_keySize (cs hc)),
           HkdfExpand s inonce (cs_nonceSize (cs hc)),
           AeadUpdateKey k]"
proof -
  obtain iupd where iupd: "hkdfLabel tls13Update (cs_trafficSecretSize (cs hc)) = Inr iupd"
    by (simp add: hkdfLabel_short label_lengths)
  have D: "deriveSecret hc (trafficSecret hc) tls13Update (cs_trafficSecretSize (cs hc)) =
     (expander hc (h hc) (trafficSecret hc) iupd (cs_trafficSecretSize (cs hc)),
      [HkdfExpand (trafficSecret hc) iupd (cs_trafficSecretSize (cs hc))])"
    by (simp add: deriveSecret_def iupd)
  show ?thesis
  proof (cases "expander hc (h hc) (trafficSecret hc) iupd (cs_trafficSecretSize (cs hc))")
    case (Inl e)
    then show ?thesis using assms by (simp add: UpdateKey_def D)
  next
    case s: (Inr s)
    let ?hc1 = "hc\<lparr>trafficSecret := s\<rparr>"
    have U: "UpdateKey hc =
      (case updateWithNewTrafficSecret ?hc1 s of
             (Some err, hc2, ev2) \<Rightarrow>
               (Some (Errorf ''hc.updateWithNewTrafficSecret'' err), hc2,
                 [HkdfExpand (trafficSecret hc) iupd (cs_trafficSecretSize (cs hc))] @ ev2)
           | (None, hc2, ev2) \<Rightarrow>
               (case aeadCrypter hc2 of
                  None \<Rightarrow> (Some (Panic ''nil pointer dereference''), hc2,
                     [HkdfExpand (trafficSecret hc) iupd (cs_trafficSecretSize (cs hc))] @ ev2)
                | Some c \<Rightarrow>
                    (case updateKey c (crypterState c) (key hc2) of
                       (Some err, st) \<Rightarrow>
                         (Some (Errorf ''hc.aeadCrypter.updateKey'' err),
                          hc2\<lparr>aeadCrypter := Some (c\<lparr>crypterState := st\<rparr>)\<rparr>,
                          [HkdfExpand (trafficSecret hc) iupd (cs_trafficSecretSize (cs hc))] @
                           ev2 @ [AeadUpdateKey (key hc2)])
                     | (None, st) \<Rightarrow>
                         (None,
                          hc2\<lparr>aeadCrypter := Some (c\<lparr>crypterState := st\<rparr>),
                              seqCounter := reset (seqCounter hc2)\<rparr>,
                          [HkdfExpand (trafficSecret hc) iupd (cs_trafficSecretSize (cs hc))] @
                           ev2 @ [AeadUpdateKey (key hc2)]))))"
      by (simp add: UpdateKey_def D s Let_def)
    show ?thesis
    proof (cases rule: updateWithNewTrafficSecret_cases[of ?hc1 s])
      case (key_fails ikey e)
      then show ?thesis using assms unfolding U by simp
    next
      case (nonce_fails ikey inonce k e)
      then show ?thesis using assms unfolding U by simp
    next
      case (ok ikey inonce k n)
      show ?thesis
      proof (cases "aeadCrypter hc")
        case None
        then show ?thesis using assms ok(5) unfolding U by simp
      next
        case (Some cr)
        obtain eo st where uk: "updateKey cr (crypterState cr) k = (eo, st)"
          by (cases "updateKey cr (crypterState cr) k")
        show ?thesis
        proof (cases eo)
          case (Some e)
          then show ?thesis using assms ok(5) \<open>aeadCrypter hc = Some cr\<close> uk unfolding U by simp
        next
          case None
          show ?thesis
          proof (rule that[of iupd ikey inonce s k n cr st])
            show "hkdfLabel tls13Update (cs_trafficSecretSize (cs hc)) = Inr iupd" by (rule iupd)
            show "hkdfLabel tls13Key (cs_keySize (cs hc)) = Inr ikey" using ok(1) by simp
            show "hkdfLabel tls13Nonce (cs_nonceSize (cs hc)) = Inr inonce" using ok(2) by simp
            show "expander hc (h hc) (trafficSecret hc) iupd (cs_trafficSecretSize (cs hc)) = Inr s"
              by (rule s)
            show "expander hc (h hc) s ikey (cs_keySize (cs hc)) = Inr k" using ok(3) by simp
            show "expander hc (h hc) s inonce (cs_nonceSize (cs hc)) = Inr n" using ok(4) by simp
            show "aeadCrypter hc = Some cr" by fact
            show "updateKey cr (crypterState cr) k = (None, st)" using uk None by simp
            show "hc' = hc\<lparr>trafficSecret := s, key := k, nonce := n,
              aeadCrypter := Some (cr\<lparr>crypterState := st\<rparr>), seqCounter := newCounter\<rparr>"
              using assms ok(5) \<open>aeadCrypter hc = Some cr\<close> uk None unfolding U
              by (simp add: reset_def newCounter_def)
            show "ev = [HkdfExpand (trafficSecret hc) iupd (cs_trafficSecretSize (cs hc)),
               HkdfExpand s ikey (cs_keySize (cs hc)),
               HkdfExpand s inonce (cs_nonceSize (cs hc)),
               AeadUpdateKey k]"
              using assms ok(5) \<open>aeadCrypter hc = Some cr\<close> uk None unfolding U by simp
          qed
        qed
      qed
    qed
  qed
qed


text \<open>
  C4. A successful \<^verbatim>\<open>UpdateKey\<close> derives the new secret from the current one with the
  label "tls13 traffic upd" and the traffic-secret size, derives key and nonce from the
  new secret with the labels "tls13 key" and "tls13 iv" (the values a construction
  from the new secret holds), calls \<^verbatim>\<open>updateKey\<close> of the crypter with the new key and
  keeps the crypter it returns, resets the sequence counter to 0 and stores the new
  secret in place of the old one.
\<close>

theorem UpdateKey_success:
  "UpdateKey hc = (None, hc', ev) \<Longrightarrow>
     fst (deriveSecret hc (trafficSecret hc) tls13Update (cs_trafficSecretSize (cs hc))) =
       Inr (trafficSecret hc') \<and>
     fst (deriveSecret hc (trafficSecret hc') tls13Key (cs_keySize (cs hc))) = Inr (key hc') \<and>
     fst (deriveSecret hc (trafficSecret hc') tls13Nonce (cs_nonceSize (cs hc))) = Inr (nonce hc') \<and>
     (\<exists>cr st. aeadCrypter hc = Some cr \<and>
        updateKey cr (crypterState cr) (key hc') = (None, st) \<and>
        aeadCrypter hc' = Some (cr\<lparr>crypterState := st\<rparr>)) \<and>
     last ev = AeadUpdateKey (key hc') \<and>
     seqCounter hc' = newCounter \<and> counter_value (seqCounter hc') = Inr 0 \<and>
     cs hc' = cs hc \<and> h hc' = h hc \<and> expander hc' = expander hc \<and>
     (\<forall>nc c hcN evN.
        nc c = cs hc \<and> cs_hashFunction (cs hc) = h hc \<and>
        NewHalfConn nc (expander hc) c (trafficSecret hc') = (Inr hcN, evN) \<longrightarrow>
        key hcN = key hc' \<and> nonce hcN = nonce hc')"
proof -
  assume "UpdateKey hc = (None, hc', ev)"
  then obtain iupd ikey inonce s k n cr st where u:
    "hkdfLabel tls13Update (cs_trafficSecretSize (cs hc)) = Inr iupd"
    "hkdfLabel tls13Key (cs_keySize (cs hc)) = Inr ikey"
    "hkdfLabel tls13Nonce (cs_nonceSize (cs hc)) = Inr inonce"
    "expander hc (h hc) (trafficSecret hc) iupd (cs_trafficSecretSize (cs hc)) = Inr s"
    "expander hc (h hc) s ikey (cs_keySize (cs hc)) = Inr k"
    "expander hc (h hc) s inonce (cs_nonceSize (cs hc)) = Inr n"
    "aeadCrypter hc = Some cr"
    "updateKey cr (crypterState cr) k = (None, st)"
    "hc' = hc\<lparr>trafficSecret := s, key := k, nonce := n,
              aeadCrypter := Some (cr\<lparr>crypterState := st\<rparr>), seqCounter := newCounter\<rparr>"
    "ev = [HkdfExpand (trafficSecret hc) iupd (cs_trafficSecretSize (cs hc)),
           HkdfExpand s ikey (cs_keySize (cs hc)),
           HkdfExpand s inonce (cs_nonceSize (cs hc)),
           AeadUpdateKey k]"
    by (rule UpdateKey_NoneE)
  have f: "trafficSecret hc' = s" "key hc' = k" "nonce hc' = n"
    "aeadCrypter hc' = Some (cr\<lparr>crypterState := st\<rparr>)" "seqCounter hc' = newCounter"
    "cs hc' = cs hc" "h hc' = h hc" "expander hc' = expander hc"
    using u(9) by simp_all
  have constr: "key hcN = k \<and> nonce hcN = n"
    if "nc c = cs hc" "cs_hashFunction (cs hc) = h hc"
      "NewHalfConn nc (expander hc) c s = (Inr hcN, evN)" for nc c hcN evN
    using that(3) u(2,3,5,6) that(1,2) by (elim NewHalfConn_InrE) simp
  have c': "\<forall>nc c hcN evN.
        nc c = cs hc \<and> cs_hashFunction (cs hc) = h hc \<and>
        NewHalfConn nc (expander hc) c s = (Inr hcN, evN) \<longrightarrow>
        key hcN = k \<and> nonce hcN = n"
    using constr by blast
  have rest: "fst (deriveSecret hc (trafficSecret hc) tls13Update (cs_trafficSecretSize (cs hc))) =
       Inr s \<and>
     fst (deriveSecret hc s tls13Key (cs_keySize (cs hc))) = Inr k \<and>
     fst (deriveSecret hc s tls13Nonce (cs_nonceSize (cs hc))) = Inr n \<and>
     (\<exists>cr' st'. aeadCrypter hc = Some cr' \<and>
        updateKey cr' (crypterState cr') k = (None, st') \<and>
        Some (cr\<lparr>crypterState := st\<rparr>) = Some (cr'\<lparr>crypterState := st'\<rparr>)) \<and>
     last ev = AeadUpdateKey k \<and> counter_value newCounter = Inr 0"
    using u(1-8) u(10)
    by (simp add: deriveSecret_def newCounter_def counter_value_def)
  show ?thesis
    unfolding f using rest c' by blast
qed

lemma UpdateKey_constHalfConn:
  "UpdateKey constHalfConn =
     (None, constHalfConn\<lparr>trafficSecret := replicate 32 1\<rparr>,
      [HkdfExpand (replicate 32 0) ([0, 32, 17] @ tls13Update @ [0]) 32,
       HkdfExpand (replicate 32 1) ([0, 16, 9] @ tls13Key @ [0]) 16,
       HkdfExpand (replicate 32 1) ([0, 12, 8] @ tls13Nonce @ [0]) 12,
       AeadUpdateKey (replicate 16 1)])"
  by (simp add: UpdateKey_def updateWithNewTrafficSecret_def deriveSecret_def
      hkdfLabel_short label_lengths constHalfConn_def toyCiphersuite_def constExpander_def
      fakeCrypter_def reset_def newCounter_def)

theorem UpdateKey_success_witness:
  "UpdateKey constHalfConn =
     (None, constHalfConn\<lparr>trafficSecret := replicate 32 1\<rparr>,
      [HkdfExpand (replicate 32 0) ([0, 32, 17] @ tls13Update @ [0]) 32,
       HkdfExpand (replicate 32 1) ([0, 16, 9] @ tls13Key @ [0]) 16,
       HkdfExpand (replicate 32 1) ([0, 12, 8] @ tls13Nonce @ [0]) 12,
       AeadUpdateKey (replicate 16 1)]) \<and>
   fst (deriveSecret constHalfConn (trafficSecret constHalfConn) tls13Update
         (cs_trafficSecretSize (cs constHalfConn))) = Inr (replicate 32 1) \<and>
   seqCounter (constHalfConn\<lparr>trafficSecret := replicate 32 1\<rparr>) = newCounter"
  using UpdateKey_success[OF UpdateKey_constHalfConn] UpdateKey_constHalfConn
  by simp

section \<open>More on the per-record nonce\<close>












section \<open>Slices\<close>

lemma length_contents: "wf_slice H s \<Longrightarrow> length (contents H s) = len s"
  by (auto simp: wf_slice_def contents_def split: option.splits)

lemma contents_append_heap:
  "wf_slice H s \<Longrightarrow> contents (H @ H1) s = contents H s"
  by (auto simp: wf_slice_def contents_def nth_append split: option.splits)

lemma wf_slice_append_heap: "wf_slice H s \<Longrightarrow> wf_slice (H @ H1) s"
  by (auto simp: wf_slice_def nth_append split: option.splits)

lemma int64_id: "- (2 ^ 63) \<le> k \<Longrightarrow> k < 2 ^ 63 \<Longrightarrow> int64 k = k"
  by (simp add: int64_def signed_take_bit_int_eq_self)

lemma int64_wrap: "2 ^ 63 \<le> k \<Longrightarrow> k < 2 ^ 64 \<Longrightarrow> int64 k = k - 2 ^ 64"
proof -
  assume a: "2 ^ 63 \<le> k" "k < 2 ^ 64"
  have "int64 k = take_bit 64 (k + 2 ^ 63) - 2 ^ 63"
    by (simp add: int64_def signed_take_bit_eq_take_bit_shift)
  also have "take_bit 64 (k + 2 ^ 63) = (k + 2 ^ 63) mod 2 ^ 64"
    by (simp add: take_bit_eq_mod)
  also have "(k + 2 ^ 63) mod 2 ^ 64 = k + 2 ^ 63 - 2 ^ 64"
  proof -
    have "(k + 2 ^ 63) mod 2 ^ 64 = (k + 2 ^ 63 - 2 ^ 64) mod 2 ^ 64"
      by (metis minus_mod_self2)
    also have "\<dots> = k + 2 ^ 63 - 2 ^ 64"
      using a by (intro mod_pos_pos_trivial) simp_all
    finally show ?thesis .
  qed
  finally show ?thesis by simp
qed

lemma SliceForAppend_reuse:
  assumes wf: "wf_slice H s" and n: "0 \<le> n" and c: "int (len s) + n \<le> int (cap s)"
    and b: "int (len s) + n < 2 ^ 63"
  shows "SliceForAppend H s n =
    (Inr (s\<lparr>len := len s + nat n\<rparr>,
          s\<lparr>off := off s + len s, len := nat n, cap := cap s - len s\<rparr>), H)"
proof -
  have t: "nat (int (len s) + n) = len s + nat n" using n by (simp add: nat_add_distrib)
  have w: "int64 (int (len s) + n) = int (len s) + n" using n b by (intro int64_id) simp_all
  show ?thesis
    using n c by (simp add: SliceForAppend_def w slice_to_def slice_from_def t)
qed

lemma SliceForAppend_alloc:
  assumes wf: "wf_slice H s" and n: "0 \<le> n" and c: "\<not> int (len s) + n \<le> int (cap s)"
    and m: "int (len s) + n \<le> int maxAlloc"
  shows "SliceForAppend H s n =
    (Inr (\<lparr>base = Some (length H), off = 0, len = len s + nat n, cap = len s + nat n\<rparr>,
          \<lparr>base = Some (length H), off = len s, len = nat n, cap = nat n\<rparr>),
     H @ [contents H s @ replicate (nat n) 0])"
proof -
  have t: "nat (int (len s) + n) = len s + nat n" using n by (simp add: nat_add_distrib)
  have "int (len s) + n < 2 ^ 63" using m by (simp add: maxAlloc_def)
  then have w: "int64 (int (len s) + n) = int (len s) + n" using n by (intro int64_id) simp_all
  have l: "length (contents H s) = len s" using wf by (rule length_contents)
  have c1: "contents (H @ [replicate (len s + nat n) 0]) s = contents H s"
    using wf by (rule contents_append_heap)
  have cp: "copy (H @ [replicate (len s + nat n) 0])
       \<lparr>base = Some (length H), off = 0, len = len s + nat n, cap = len s + nat n\<rparr> s =
     H @ [contents H s @ replicate (nat n) 0]"
    by (simp add: copy_def Let_def c1 l)
  have mk: "makeslice H (int (len s) + n) =
      Inr (\<lparr>base = Some (length H), off = 0, len = len s + nat n, cap = len s + nat n\<rparr>,
           H @ [replicate (len s + nat n) 0])"
    using m n by (simp add: makeslice_def make_def t)
  show ?thesis
    using c by (simp add: SliceForAppend_def w mk cp slice_from_def)
qed

lemma contents_new_array:
  "contents (H @ [xs]) \<lparr>base = Some (length H), off = i, len = l, cap = c\<rparr> = take l (drop i xs)"
  by (simp add: contents_def)

text \<open>
  C7 (as amended). For a slice \<open>s\<close> (well-formed in the store) and \<open>n \<ge> 0\<close> such that
  \<open>len s + n\<close> does not overflow Go's \<^verbatim>\<open>int\<close> and, when the capacity of \<open>s\<close> does not
  cover it, is within the run-time's allocation limit, \<^verbatim>\<open>SliceForAppend\<close> returns a
  head of length \<open>len s + n\<close> whose first \<open>len s\<close> bytes are the bytes of \<open>s\<close>, and a tail
  of length \<open>n\<close> that is the view on the last \<open>n\<close> bytes of the head (same array,
  starting \<open>len s\<close> elements after the head's start). When the capacity of \<open>s\<close> covers
  \<open>len s + n\<close>, the store is unchanged (nothing is allocated or written) and the head
  is \<open>s\<close> re-sliced: same array, same start. In every case the arrays that existed
  before are unchanged.
\<close>

theorem SliceForAppend_contract:
  "wf_slice H s \<Longrightarrow> 0 \<le> n \<Longrightarrow> int (len s) + n < 2 ^ 63 \<Longrightarrow>
   (int (cap s) < int (len s) + n \<longrightarrow> int (len s) + n \<le> int maxAlloc) \<Longrightarrow>
   \<exists>head tail H'.
     SliceForAppend H s n = (Inr (head, tail), H') \<and>
     wf_slice H' head \<and> wf_slice H' tail \<and>
     len head = len s + nat n \<and>
     take (len s) (contents H' head) = contents H s \<and>
     len tail = nat n \<and> base tail = base head \<and> off tail = off head + len s \<and>
     contents H' tail = drop (len s) (contents H' head) \<and>
     (int (len s) + n \<le> int (cap s) \<longrightarrow>
        H' = H \<and> base head = base s \<and> off head = off s \<and> cap head = cap s) \<and>
     take (length H) H' = H"
proof -
  assume wf: "wf_slice H s" and n: "0 \<le> n" and b: "int (len s) + n < 2 ^ 63"
    and m: "int (cap s) < int (len s) + n \<longrightarrow> int (len s) + n \<le> int maxAlloc"
  show ?thesis
  proof (cases "int (len s) + n \<le> int (cap s)")
    case True
    let ?head = "s\<lparr>len := len s + nat n\<rparr>"
    let ?tail = "s\<lparr>off := off s + len s, len := nat n, cap := cap s - len s\<rparr>"
    have le: "len s + nat n \<le> cap s" using True n by linarith
    have S: "SliceForAppend H s n = (Inr (?head, ?tail), H)"
      using wf n True b by (rule SliceForAppend_reuse)
    have w1: "wf_slice H ?head"
      using wf le by (auto simp: wf_slice_def split: option.splits)
    have w2: "wf_slice H ?tail"
      using wf le by (auto simp: wf_slice_def split: option.splits)
    have c1: "take (len s) (contents H ?head) = contents H s"
      by (simp add: contents_def min_def split: option.splits)
    have c2: "contents H ?tail = drop (len s) (contents H ?head)"
      by (simp add: contents_def drop_take add.commute split: option.splits)
    show ?thesis
      using S w1 w2 c1 c2 by simp
  next
    case False
    let ?head = "\<lparr>base = Some (length H), off = 0, len = len s + nat n, cap = len s + nat n\<rparr>"
    let ?tail = "\<lparr>base = Some (length H), off = len s, len = nat n, cap = nat n\<rparr>"
    let ?H = "H @ [contents H s @ replicate (nat n) 0]"
    have l: "length (contents H s) = len s" using wf by (rule length_contents)
    have lim: "int (len s) + n \<le> int maxAlloc" using m False by simp
    have S: "SliceForAppend H s n = (Inr (?head, ?tail), ?H)"
      using wf n False lim by (rule SliceForAppend_alloc)
    have w1: "wf_slice ?H ?head" by (simp add: wf_slice_def l)
    have w2: "wf_slice ?H ?tail" by (simp add: wf_slice_def l)
    have c0: "contents ?H ?head = contents H s @ replicate (nat n) 0"
      by (simp add: contents_new_array l)
    have c1: "take (len s) (contents ?H ?head) = contents H s"
      unfolding c0 by (simp add: l)
    have c2: "contents ?H ?tail = drop (len s) (contents ?H ?head)"
      unfolding c0 by (simp add: contents_new_array l)
    show ?thesis
      using S w1 w2 c1 c2 False by simp
  qed
qed

theorem SliceForAppend_contract_witness:
  "wf_slice heap5 bufCap5 \<and> (0::int) \<le> 5 \<and>
   SliceForAppend heap5 bufCap5 5 =
     (Inr (\<lparr>base = Some 0, off = 0, len = 5, cap = 5\<rparr>,
           \<lparr>base = Some 0, off = 0, len = 5, cap = 5\<rparr>), heap5) \<and>
   wf_slice heap5 bufFull \<and>
   int (len bufFull) + 5 < 2 ^ 63 \<and> int (len bufFull) + 5 \<le> int maxAlloc \<and>
   SliceForAppend heap5 bufFull 5 =
     (Inr (\<lparr>base = Some 1, off = 0, len = 10, cap = 10\<rparr>,
           \<lparr>base = Some 1, off = 5, len = 5, cap = 5\<rparr>),
      [replicate 5 0x11, replicate 5 0x11 @ replicate 5 0])"
proof -
  have w1: "wf_slice heap5 bufCap5" by (simp add: wf_slice_def heap5_def bufCap5_def)
  have w2: "wf_slice heap5 bufFull" by (simp add: wf_slice_def heap5_def bufFull_def)
  have z: "(0::int) \<le> 5" by simp
  have b1: "int (len bufCap5) + 5 < 2 ^ 63" by (simp add: bufCap5_def)
  have m1: "int (cap bufCap5) < int (len bufCap5) + 5 \<longrightarrow>
      int (len bufCap5) + 5 \<le> int maxAlloc" by (simp add: bufCap5_def)
  have b2: "int (len bufFull) + 5 < 2 ^ 63" by (simp add: bufFull_def)
  have l2: "int (len bufFull) + 5 \<le> int maxAlloc" by (simp add: bufFull_def maxAlloc_def)
  then have m2: "int (cap bufFull) < int (len bufFull) + 5 \<longrightarrow>
      int (len bufFull) + 5 \<le> int maxAlloc" by simp
  have c1: "int (len bufCap5) + 5 \<le> int (cap bufCap5)" by (simp add: bufCap5_def)
  have c2: "\<not> int (len bufFull) + 5 \<le> int (cap bufFull)" by (simp add: bufFull_def)
  have s1: "SliceForAppend heap5 bufCap5 5 =
     (Inr (\<lparr>base = Some 0, off = 0, len = 5, cap = 5\<rparr>,
           \<lparr>base = Some 0, off = 0, len = 5, cap = 5\<rparr>), heap5)"
    using SliceForAppend_reuse[OF w1 z c1 b1] by (simp add: bufCap5_def)
  have s2: "SliceForAppend heap5 bufFull 5 =
     (Inr (\<lparr>base = Some 1, off = 0, len = 10, cap = 10\<rparr>,
           \<lparr>base = Some 1, off = 5, len = 5, cap = 5\<rparr>),
      [replicate 5 0x11, replicate 5 0x11 @ replicate 5 0])"
    using SliceForAppend_alloc[OF w2 z c2 l2]
    by (simp add: bufFull_def heap5_def contents_def)
  from SliceForAppend_contract[OF w1 z b1 m1] SliceForAppend_contract[OF w2 z b2 m2]
  show ?thesis using w1 w2 s1 s2 z b2 l2 by blast
qed

text \<open>
  The claim as stated ("for every \<open>n \<ge> 0\<close>") fails for the five-byte buffer of the
  tests. With \<open>n = 2^63 - 1\<close>, the largest \<^verbatim>\<open>int\<close>, the sum \<^verbatim>\<open>len(in) + n\<close> wraps
  around to \<open>4 - 2^63\<close>, the capacity covers that negative total, and \<^verbatim>\<open>in[:total]\<close>
  panics. With \<open>n = 2^62\<close> the sum does not wrap, and \<^verbatim>\<open>make\<close> panics because the
  length is above the allocation limit. The store is unchanged in both cases.
\<close>

theorem SliceForAppend_contract_counterexample:
  "wf_slice heap5 bufFull \<and>
   SliceForAppend heap5 bufFull (2 ^ 63 - 1) =
     (Inl (Panic ''slice bounds out of range''), heap5) \<and>
   SliceForAppend heap5 bufFull (2 ^ 62) =
     (Inl (Panic ''makeslice: len out of range''), heap5)"
proof -
  have w: "wf_slice heap5 bufFull" by (simp add: wf_slice_def heap5_def bufFull_def)
  have l: "int (len bufFull) = 5" by (simp add: bufFull_def)
  have "int64 (5 + (2 ^ 63 - 1)) = 5 + (2 ^ 63 - 1) - 2 ^ 64"
    by (rule int64_wrap) simp_all
  then have t1: "int64 (int (len bufFull) + (2 ^ 63 - 1)) = 4 - 2 ^ 63"
    unfolding l by simp
  have "int64 (5 + 2 ^ 62) = 5 + 2 ^ 62" by (rule int64_id) simp_all
  then have t2: "int64 (int (len bufFull) + 2 ^ 62) = 5 + 2 ^ 62"
    unfolding l .
  have s1: "SliceForAppend heap5 bufFull (2 ^ 63 - 1) =
     (Inl (Panic ''slice bounds out of range''), heap5)"
    unfolding SliceForAppend_def Let_def t1
    by (simp add: slice_to_def bufFull_def)
  have s2: "SliceForAppend heap5 bufFull (2 ^ 62) =
     (Inl (Panic ''makeslice: len out of range''), heap5)"
    unfolding SliceForAppend_def Let_def t2
    by (simp add: makeslice_def maxAlloc_def bufFull_def)
  from w s1 s2 show ?thesis by blast
qed

section \<open>maskedNonce on the store\<close>














section \<open>Runs of Encrypt calls\<close>





















end
